theory Spec2Isabelle
  imports Main
begin

section \<open>Python values used by the crawler\<close>

text \<open>
  The crawler is one Python module. Strings are modelled as \<open>string\<close>, each \<open>char\<close> standing
  for the code point of the same number (0 to 255); Python integers are \<open>int\<close>. Every
  exception the modelled functions can raise is a value of \<open>error\<close>, returned as \<open>Inl\<close>.
  The interpreter is CPython 3.11 with its settings as installed.
\<close>

datatype error = ValueError | TypeError | OverflowError | ZeroDivisionError

subsection \<open>Decimal digits\<close>

definition is_digit :: "char \<Rightarrow> bool" where
  "is_digit c = (c \<in> set ''0123456789'')"

definition digit_val :: "char \<Rightarrow> int" where
  "digit_val c = of_char c - 48"

definition digit_char :: "nat \<Rightarrow> char" where
  "digit_char d = ''0123456789'' ! d"

text \<open>\<open>str(n)\<close> for a natural number: its decimal digits, most significant first.\<close>

fun digits_of :: "nat \<Rightarrow> string" where
  "digits_of n = (if n < 10 then [digit_char n] else digits_of (n div 10) @ [digit_char (n mod 10)])"

declare digits_of.simps [simp del]

text \<open>
  The interpreter converts between \<open>int\<close> and \<open>str\<close> only up to
  \<open>sys.int_info.default_max_str_digits\<close> digits, and raises ValueError beyond.
\<close>

definition max_str_digits :: nat where
  "max_str_digits = 4300"

text \<open>
  \<open>str(n)\<close> for an integer, and \<open>f"{n}"\<close> with it. The sign does not count as a digit.
\<close>

definition py_str :: "int \<Rightarrow> error + string" where
  "py_str n =
     (let ds = digits_of (nat \<bar>n\<bar>)
      in if max_str_digits < length ds then Inl ValueError
         else Inr (if n < 0 then CHR ''-'' # ds else ds))"

text \<open>
  The format specification \<open>0wd\<close> of an f-string (\<open>f"{number:06d}"\<close>): the sign, if any, comes
  first and zeros fill the field up to \<open>w\<close> characters, sign included; a longer number is
  never cut. The crawler formats this way only numbers from 0 to 9999999, which are far
  from the limit on the digits.
\<close>

definition format_0d :: "nat \<Rightarrow> int \<Rightarrow> string" where
  "format_0d w n =
     (if n < 0
      then CHR ''-'' # replicate (w - 1 - length (digits_of (nat (- n)))) CHR ''0'' @ digits_of (nat (- n))
      else replicate (w - length (digits_of (nat n))) CHR ''0'' @ digits_of (nat n))"

text \<open>\<open>s.zfill(w)\<close>: zeros on the left up to \<open>w\<close> characters, after a leading sign.\<close>

definition zfill :: "nat \<Rightarrow> string \<Rightarrow> string" where
  "zfill w s =
     (case s of
        c # cs \<Rightarrow>
          if c = CHR ''+'' \<or> c = CHR ''-''
          then c # replicate (w - length s) CHR ''0'' @ cs
          else replicate (w - length s) CHR ''0'' @ s
      | [] \<Rightarrow> replicate w CHR ''0'')"

subsection \<open>\<open>int(s)\<close> and \<open>s.strip()\<close>\<close>

text \<open>
  The characters below 256 that \<open>str.isspace\<close> accepts: tab, line feed, vertical tab, form
  feed, carriage return, the separators 28 to 31, space, next line (133) and no-break
  space (160).
\<close>

definition is_space :: "char \<Rightarrow> bool" where
  "is_space c = ((of_char c :: nat) \<in> set [9, 10, 11, 12, 13, 28, 29, 30, 31, 32, 133, 160])"

definition strip :: "string \<Rightarrow> string" where
  "strip s = rev (dropWhile is_space (rev (dropWhile is_space s)))"

text \<open>
  What \<open>int\<close> skips around a literal is not the same set: of the characters of ASCII only
  tab, line feed, vertical tab, form feed, carriage return and space, so not the
  separators 28 to 31; beyond ASCII, the white space of Unicode, here 133 and 160.
\<close>

definition is_int_space :: "char \<Rightarrow> bool" where
  "is_int_space c = ((of_char c :: nat) \<in> set [9, 10, 11, 12, 13, 32, 133, 160])"

definition int_strip :: "string \<Rightarrow> string" where
  "int_strip s = rev (dropWhile is_int_space (rev (dropWhile is_int_space s)))"

text \<open>
  The digit part of an integer literal: digits, with single underscores allowed between two
  digits. The flag says that the character before was a digit.
\<close>

fun digitpart :: "bool \<Rightarrow> string \<Rightarrow> bool" where
  "digitpart prev [] = prev"
| "digitpart prev (c # cs) =
     (if is_digit c then digitpart True cs
      else if c = CHR ''_'' \<and> prev then digitpart False cs
      else False)"

definition digits_value :: "string \<Rightarrow> int" where
  "digits_value s = foldl (\<lambda>acc c. 10 * acc + digit_val c) 0 (filter is_digit s)"

text \<open>
  \<open>int(s)\<close> in base 10: surrounding white space is dropped, one sign is allowed, and
  anything else than a digit part raises ValueError; so does a digit part of more than
  \<open>max_str_digits\<close> digits, leading zeros counted and underscores not.
\<close>

definition py_int :: "string \<Rightarrow> error + int" where
  "py_int s =
     (let t = int_strip s;
          (neg, body) = (case t of
                           c # cs \<Rightarrow> if c = CHR ''-'' then (True, cs)
                                     else if c = CHR ''+'' then (False, cs)
                                     else (False, t)
                         | [] \<Rightarrow> (False, t))
      in if digitpart False body \<and> length (filter is_digit body) \<le> max_str_digits
         then Inr (if neg then - digits_value body else digits_value body)
         else Inl ValueError)"

section \<open>The identifier codec\<close>

text \<open>\<open>extract_number_and_type\<close>: the family tag is \<open>id_str[:2]\<close>, the number \<open>int(id_str[2:])\<close>.\<close>

definition extract_number_and_type :: "string \<Rightarrow> error + (int \<times> string)" where
  "extract_number_and_type id_str =
     (let code_type = take 2 id_str
      in if code_type \<in> set [''RJ'', ''VJ'']
         then (case py_int (drop 2 id_str) of
                 Inl e \<Rightarrow> Inl e
               | Inr number \<Rightarrow> Inr (number, code_type))
         else Inr (0, ''''))"

text \<open>
  The last line of \<open>generate_id\<close>, \<open>return f"{code_type}{number}"\<close>, which every case
  without a padded form falls through to.
\<close>

definition unpadded_id :: "int \<Rightarrow> string \<Rightarrow> error + string" where
  "unpadded_id number code_type =
     (case py_str number of Inl err \<Rightarrow> Inl err | Inr ds \<Rightarrow> Inr (code_type @ ds))"

text \<open>\<open>generate_id\<close>, branch by branch.\<close>

definition generate_id :: "int \<Rightarrow> string \<Rightarrow> error + string" where
  "generate_id number code_type =
     (if code_type = ''RJ'' then
        (if 0 \<le> number \<and> number \<le> 999999 then Inr (''RJ'' @ format_0d 6 number)
         else if 1000000 \<le> number \<and> number \<le> 9999999 then Inr (''RJ'' @ format_0d 8 number)
         else unpadded_id number code_type)
      else if code_type = ''VJ'' then
        (if 0 \<le> number \<and> number \<le> 999999 then Inr (''VJ'' @ format_0d 6 number)
         else if 1000000 \<le> number \<and> number \<le> 9999999 then Inr (''VJ'' @ format_0d 8 number)
         else unpadded_id number code_type)
      else unpadded_id number code_type)"

text \<open>
  \<open>extract_number_and_type(generate_id(number, code_type))\<close>: an exception of the inner
  call is the exception of the whole.
\<close>

definition round_trip :: "int \<Rightarrow> string \<Rightarrow> error + (int \<times> string)" where
  "round_trip number code_type =
     (case generate_id number code_type of
        Inl err \<Rightarrow> Inl err
      | Inr pid \<Rightarrow> extract_number_and_type pid)"

section \<open>The shard key\<close>

subsection \<open>True division and \<open>math.ceil\<close>\<close>

text \<open>
  \<open>code_num / 1000\<close> is Python's true division of two integers: the result is the double
  nearest to the exact quotient, ties going to the even mantissa, and OverflowError when
  that double would not be finite. A finite double is modelled as a pair \<open>(m, e)\<close> of
  integers with the value \<open>m * 2 ^ e\<close>, where \<open>\<bar>m\<bar> \<le> 2 ^ 53\<close> and \<open>- 1074 \<le> e\<close>.
\<close>

type_synonym float = "int \<times> int"

text \<open>\<open>n.bit_length()\<close> for a natural number.\<close>

fun bit_length :: "nat \<Rightarrow> nat" where
  "bit_length n = (if n = 0 then 0 else Suc (bit_length (n div 2)))"

declare bit_length.simps [simp del]

text \<open>The integer nearest to \<open>num / den\<close>, a tie going to the even one.\<close>

definition round_half_even :: "nat \<Rightarrow> nat \<Rightarrow> nat" where
  "round_half_even num den =
     (let q = num div den; r = num mod den
      in if den < 2 * r \<or> (2 * r = den \<and> odd q) then q + 1 else q)"

text \<open>
  The exponent of the double nearest to \<open>x / y\<close>: the one that puts the scaled quotient
  between \<open>2 ^ 52\<close> and \<open>2 ^ 53\<close>, and never below the exponent of the subnormal numbers.
\<close>

definition quotient_exponent :: "nat \<Rightarrow> nat \<Rightarrow> int" where
  "quotient_exponent x y =
     (let d = int (bit_length x) - int (bit_length y)
      in max (if y * 2 ^ nat d \<le> x * 2 ^ nat (- d) then d - 52 else d - 53) (- 1074))"

text \<open>The double nearest to \<open>x / y\<close> for positive \<open>x\<close> and \<open>y\<close>, as mantissa and exponent.\<close>

definition nearest_double :: "nat \<Rightarrow> nat \<Rightarrow> error + (nat \<times> int)" where
  "nearest_double x y =
     (let e = quotient_exponent x y;
          m = round_half_even (x * 2 ^ nat (- e)) (y * 2 ^ nat e)
      in if 2 ^ 2098 \<le> m * 2 ^ nat (e + 1074) then Inl OverflowError else Inr (m, e))"

definition py_truediv :: "int \<Rightarrow> int \<Rightarrow> error + float" where
  "py_truediv a b =
     (if b = 0 then Inl ZeroDivisionError
      else if a = 0 then Inr (0, 0)
      else
        (case nearest_double (nat \<bar>a\<bar>) (nat \<bar>b\<bar>) of
           Inl err \<Rightarrow> Inl err
         | Inr (m, e) \<Rightarrow> Inr (if (a < 0) \<noteq> (b < 0) then - int m else int m, e)))"

text \<open>\<open>math.ceil\<close> of a finite double, an exact integer.\<close>

definition math_ceil :: "float \<Rightarrow> int" where
  "math_ceil f = (case f of (m, e) \<Rightarrow> if 0 \<le> e then m * 2 ^ nat e else - ((- m) div 2 ^ nat (- e)))"

subsection \<open>\<open>get_base_folder\<close>\<close>

definition is_upper :: "char \<Rightarrow> bool" where
  "is_upper c = (c \<in> set ''ABCDEFGHIJKLMNOPQRSTUVWXYZ'')"

text \<open>
  \<open>re.match(r'([A-Z]+)(\d+)', product_id)\<close>: the longest run of capital letters at the
  start, then the longest run of digits after it; both must be non-empty, and what follows
  the digits is not looked at. The result is the pair of the two groups.
\<close>

definition match_prefix_digits :: "string \<Rightarrow> (string \<times> string) option" where
  "match_prefix_digits s =
     (let prefix = takeWhile is_upper s;
          code_str = takeWhile is_digit (dropWhile is_upper s)
      in if prefix = [] \<or> code_str = [] then None else Some (prefix, code_str))"

definition get_base_folder :: "string \<Rightarrow> error + string option" where
  "get_base_folder product_id =
     (case match_prefix_digits product_id of
        None \<Rightarrow> Inr None
      | Some (prefix, code_str) \<Rightarrow>
          (case py_int code_str of
             Inl err \<Rightarrow> Inl err
           | Inr code_num \<Rightarrow>
               (case py_truediv code_num 1000 of
                  Inl err \<Rightarrow> Inl err
                | Inr ratio \<Rightarrow>
                    let base_num = math_ceil ratio * 1000;
                        padding_length = length code_str
                    in (case py_str base_num of
                          Inl err \<Rightarrow> Inl err
                        | Inr base_str \<Rightarrow>
                            let formatted_base = zfill padding_length base_str
                            in Inr (Some (prefix @ formatted_base))))))"

section \<open>The crawl\<close>

subsection \<open>The world outside\<close>

text \<open>
  What \<open>DlsiteAPI.get_work\<close> returns for an identifier: a work, a 404 error, or another
  error. Of a work the crawler reads six attributes; \<open>circle\<close>, \<open>brand\<close> and \<open>work_image\<close>
  may be \<open>None\<close>.
\<close>

record work =
  product_id :: string
  site_id :: string
  work_name :: string
  circle :: "string option"
  brand :: "string option"
  work_image :: "string option"

datatype response = Found work | NotFound | Failed

text \<open>
  What happens in \<open>download_image\<close> once \<open>session.get(url)\<close> is called. \<open>Saved\<close>: the status
  is 200 and the body is written to the file. \<open>Refused\<close>: the status is not 200, or an
  exception is raised before \<open>open(save_path, 'wb')\<close> has created the file.
  \<open>Truncated\<close>: the status is 200 and the file has been created, then reading or writing
  the body raises; the exception is caught and the file stays, empty or partial.
\<close>

datatype http_result = Saved | Refused | Truncated

text \<open>The record provider and the image server.\<close>

record env =
  provider :: "string \<Rightarrow> response"
  http :: "string \<Rightarrow> http_result"

subsection \<open>The state of a run\<close>

text \<open>A catalog entry is a dictionary with the four keys the crawler writes.\<close>

record entry =
  maker :: string
  code :: string
  title :: string
  translate_title :: string

text \<open>
  The list \<open>database\<close> in memory, and on disk the cursor file \<open>DLsite_DB/.temp\<close>, the
  items of \<open>dlsite_database.json\<close> (the time stamp is left out) and the set of image
  paths that exist. Two more fields only record what happened: the identifier of every
  iteration of the loop of \<open>process_sequential_ids\<close>, in order, and the path of every
  request \<open>session.get\<close> sent for an image.
\<close>

record state =
  database :: "entry list"
  temp_file :: "string option"
  db_file :: "entry list option"
  files :: "string set"
  visited :: "string list"
  downloads :: "string list"

text \<open>
  A run ends before its time by an exception nothing catches, or because the process is
  terminated from outside. Either way the state reached is kept: what is on disk stays.
\<close>

datatype abort = Raised error | Terminated

subsection \<open>Progress file\<close>

definition save_progress :: "string \<Rightarrow> state \<Rightarrow> state" where
  "save_progress current_id s = s\<lparr>temp_file := Some current_id\<rparr>"

definition load_progress :: "state \<Rightarrow> string option" where
  "load_progress s = map_option strip (temp_file s)"

subsection \<open>Images\<close>

text \<open>
  Truth value of an optional string: \<open>None\<close> and the empty string are false.
\<close>

definition truthy :: "string option \<Rightarrow> bool" where
  "truthy x = (case x of None \<Rightarrow> False | Some v \<Rightarrow> v \<noteq> [])"

definition fetch_work_info :: "env \<Rightarrow> string \<Rightarrow> work option" where
  "fetch_work_info e pid =
     (case provider e pid of Found w \<Rightarrow> Some w | NotFound \<Rightarrow> None | Failed \<Rightarrow> None)"

definition fix_image_url :: "string \<Rightarrow> string" where
  "fix_image_url url = (if url \<noteq> [] \<and> take 2 url = ''//'' then ''https:'' @ url else url)"

definition download_image :: "env \<Rightarrow> string option \<Rightarrow> string \<Rightarrow> state \<Rightarrow> bool \<times> state" where
  "download_image e url save_path s =
     (if \<not> truthy url then (False, s)
      else if save_path \<in> files s then (True, s)
      else
        let url' = fix_image_url (the url);
            s' = s\<lparr>downloads := downloads s @ [save_path]\<rparr>
        in (case http e url' of
              Saved \<Rightarrow> (True, s'\<lparr>files := insert save_path (files s')\<rparr>)
            | Refused \<Rightarrow> (False, s')
            | Truncated \<Rightarrow> (False, s'\<lparr>files := insert save_path (files s')\<rparr>)))"

text \<open>\<open>os.path.join\<close> of two components, with \<open>/\<close> as the separator.\<close>

definition path_join :: "string \<Rightarrow> string \<Rightarrow> string" where
  "path_join a b =
     (if take 1 b = ''/'' then b
      else if a = [] \<or> last a = CHR ''/'' then a @ b
      else a @ ''/'' @ b)"

text \<open>
  The path of the main image of an identifier, computed the same way at both places of
  \<open>process_sequential_ids\<close>. When \<open>get_base_folder\<close> returns \<open>None\<close>, \<open>os.path.join\<close>
  raises TypeError.
\<close>

definition image_path :: "string \<Rightarrow> error + string" where
  "image_path pid =
     (case get_base_folder pid of
        Inl err \<Rightarrow> Inl err
      | Inr None \<Rightarrow> Inl TypeError
      | Inr (Some base_folder) \<Rightarrow>
          let save_dir = path_join (path_join ''DLsite_DB'' base_folder) pid;
              image_filename = pid @ ''_img_main.jpg''
          in Inr (path_join save_dir image_filename))"

subsection \<open>One identifier\<close>

text \<open>The identifier is already in the catalog: only a missing image is fetched.\<close>

definition repair_image :: "env \<Rightarrow> string \<Rightarrow> state \<Rightarrow> (error \<times> state) + state" where
  "repair_image e pid s =
     (case image_path pid of
        Inl err \<Rightarrow> Inl (err, s)
      | Inr save_path \<Rightarrow>
          if save_path \<notin> files s
          then (case fetch_work_info e pid of
                  None \<Rightarrow> Inr s
                | Some w \<Rightarrow>
                    if truthy (work_image w)
                    then Inr (snd (download_image e (work_image w) save_path s))
                    else Inr s)
          else Inr s)"

text \<open>\<open>work.circle or "Unknown"\<close>.\<close>

definition or_unknown :: "string option \<Rightarrow> string" where
  "or_unknown x = (if truthy x then the x else ''Unknown'')"

text \<open>The identifier is new: the provider is asked, and an accepted work is appended.\<close>

definition ingest_new :: "env \<Rightarrow> string \<Rightarrow> state \<Rightarrow> (error \<times> state) + state" where
  "ingest_new e pid s =
     (case fetch_work_info e pid of
        None \<Rightarrow> Inr s
      | Some w \<Rightarrow>
          if site_id w \<in> set [''maniax'', ''pro'']
          then
            let the_maker = (if take 2 (product_id w) = ''RJ'' then or_unknown (circle w)
                         else if take 2 (product_id w) = ''VJ'' then or_unknown (brand w)
                         else ''Unknown'');
                entry = \<lparr>maker = the_maker, code = product_id w, title = work_name w,
                         translate_title = ''NaN''\<rparr>
            in if truthy (work_image w)
               then (case image_path (product_id w) of
                       Inl err \<Rightarrow> Inl (err, s)
                     | Inr save_path \<Rightarrow>
                         let s' = snd (download_image e (work_image w) save_path s)
                         in Inr (s'\<lparr>database := database s' @ [entry]\<rparr>))
               else Inr (s\<lparr>database := database s @ [entry]\<rparr>)
          else Inr s)"

text \<open>
  The start of an iteration of the loop of \<open>process_sequential_ids\<close>: the identifier is
  generated (and recorded as visited), and every tenth number it is saved as the cursor.
\<close>

definition checkpointed :: "string \<Rightarrow> int \<Rightarrow> state \<Rightarrow> state" where
  "checkpointed pid number s =
     (if number mod 10 = 0 then save_progress pid (s\<lparr>visited := visited s @ [pid]\<rparr>)
      else s\<lparr>visited := visited s @ [pid]\<rparr>)"

text \<open>
  The body of the loop for one number (\<open>pid\<close> stands for the variable \<open>product_id\<close>): the
  identifier, which \<open>generate_id\<close> may fail to build; the start above; one of the two cases
  by whether the catalog has an entry with this code; and the catalog file every twentieth
  number.
\<close>

definition process_number :: "env \<Rightarrow> string \<Rightarrow> int \<Rightarrow> state \<Rightarrow> (error \<times> state) + state" where
  "process_number e code_type number s =
     (case generate_id number code_type of
        Inl err \<Rightarrow> Inl (err, s)
      | Inr pid \<Rightarrow>
          let s1 = checkpointed pid number s;
              existing_entry = find (\<lambda>entry. code entry = pid) (database s1)
          in case (if existing_entry \<noteq> None then repair_image e pid s1
                   else ingest_new e pid s1) of
               Inl a \<Rightarrow> Inl a
             | Inr s2 \<Rightarrow>
                 Inr (if number mod 20 = 0 then s2\<lparr>db_file := Some (database s2)\<rparr> else s2))"

subsection \<open>Ranges\<close>

text \<open>
  \<open>process_sequential_ids\<close>: the numbers from \<open>start_number\<close> to \<open>end_number\<close>, in order.
  The argument \<open>halt\<close> names the identifier after whose iteration the process is terminated
  from outside, if any.
\<close>

function process_sequential_ids ::
  "env \<Rightarrow> string option \<Rightarrow> int \<Rightarrow> int \<Rightarrow> string \<Rightarrow> state \<Rightarrow> (abort \<times> state) + state" where
  "process_sequential_ids e halt start_number end_number code_type s =
     (if end_number < start_number then Inr s
      else
        (case process_number e code_type start_number s of
           Inl (err, s') \<Rightarrow> Inl (Raised err, s')
         | Inr s' \<Rightarrow>
             if map_option Inr halt = Some (generate_id start_number code_type)
             then Inl (Terminated, s')
             else process_sequential_ids e halt (start_number + 1) end_number code_type s'))"
  by pat_completeness auto
termination
  by (relation "measure (\<lambda>(e, halt, start_number, end_number, code_type, s).
        nat (end_number + 1 - start_number))") auto

declare process_sequential_ids.simps [simp del]

definition batch_size :: int where
  "batch_size = 1000"

text \<open>
  The loop over \<open>range(current_start, range_end + 1, batch_size)\<close>, with the catalog file
  written after each batch.
\<close>

function process_batches ::
  "env \<Rightarrow> string option \<Rightarrow> string \<Rightarrow> int \<Rightarrow> int \<Rightarrow> state \<Rightarrow> (abort \<times> state) + state" where
  "process_batches e halt code_type batch_start range_end s =
     (if range_end < batch_start then Inr s
      else
        let batch_end = min (batch_start + batch_size - 1) range_end
        in case process_sequential_ids e halt batch_start batch_end code_type s of
             Inl a \<Rightarrow> Inl a
           | Inr s' \<Rightarrow>
               process_batches e halt code_type (batch_start + batch_size) range_end
                 (s'\<lparr>db_file := Some (database s')\<rparr>))"
  by pat_completeness auto
termination
  by (relation "measure (\<lambda>(e, halt, code_type, batch_start, range_end, s).
        nat (range_end + 1 - batch_start))") (auto simp: batch_size_def)

declare process_batches.simps [simp del]

text \<open>
  The loop \<open>for i in range(rj_range_index, len(rj_ranges))\<close> of \<open>main\<close>; the list of ranges
  is an argument.
\<close>

function process_ranges ::
  "env \<Rightarrow> string option \<Rightarrow> (int \<times> int) list \<Rightarrow> nat \<Rightarrow> int \<Rightarrow> nat \<Rightarrow> state \<Rightarrow>
     (abort \<times> state) + state" where
  "process_ranges e halt ranges range_index start_number i s =
     (if length ranges \<le> i then Inr s
      else
        let (range_start, range_end) = ranges ! i;
            current_start = (if i = range_index then start_number else range_start)
        in case process_batches e halt ''RJ'' current_start range_end s of
             Inl a \<Rightarrow> Inl a
           | Inr s' \<Rightarrow> process_ranges e halt ranges range_index start_number (i + 1) s')"
  by pat_completeness auto
termination
  by (relation "measure (\<lambda>(e, halt, ranges, range_index, start_number, i, s).
        length ranges - i)") auto

declare process_ranges.simps [simp del]

subsection \<open>\<open>main\<close>\<close>

definition rj_ranges :: "(int \<times> int) list" where
  "rj_ranges = [(0, 499999), (1000000, 1369999)]"

text \<open>
  \<open>vj_range\<close> is a list of two tuples as well, and \<open>main\<close> uses its elements where it needs
  numbers. The values involved are integers and tuples of integers.
\<close>

datatype pyval = PInt int | PTuple "int list"

definition vj_range :: "pyval list" where
  "vj_range = [PTuple [0, 499999], PTuple [1000000, 1369999]]"

text \<open>\<open>a + b\<close>: integers add, tuples concatenate, a tuple and an integer raise TypeError.\<close>

fun py_add :: "pyval \<Rightarrow> pyval \<Rightarrow> error + pyval" where
  "py_add (PInt a) (PInt b) = Inr (PInt (a + b))"
| "py_add (PTuple a) (PTuple b) = Inr (PTuple (a @ b))"
| "py_add (PInt a) (PTuple b) = Inl TypeError"
| "py_add (PTuple a) (PInt b) = Inl TypeError"

text \<open>An argument of \<open>range\<close> has to be an integer.\<close>

fun as_int :: "pyval \<Rightarrow> error + int" where
  "as_int (PInt n) = Inr n"
| "as_int (PTuple t) = Inl TypeError"

text \<open>
  The state \<open>main\<close> starts from: the catalog is the list of items of the catalog file, or
  empty without a readable file; nothing has been visited.
\<close>

definition startup :: "state \<Rightarrow> state" where
  "startup s =
     s\<lparr>database := (case db_file s of Some items \<Rightarrow> items | None \<Rightarrow> []),
       visited := [], downloads := []\<rparr>"

text \<open>
  The start information computed from the cursor: \<open>start_number\<close>, \<open>rj_range_index\<close> and
  \<open>start_in_vj\<close>.
\<close>

definition start_info :: "string option \<Rightarrow> error + (int \<times> nat \<times> bool)" where
  "start_info saved_id =
     (if truthy saved_id
      then (case extract_number_and_type (the saved_id) of
              Inl err \<Rightarrow> Inl err
            | Inr (number, code_type) \<Rightarrow>
                if code_type = ''RJ''
                then Inr (number,
                          (if 0 \<le> number \<and> number \<le> 499999 then 0
                           else if 1000000 \<le> number \<and> number \<le> 1369999 then 1
                           else 0),
                          False)
                else if code_type = ''VJ'' then Inr (number, 0, True)
                else Inr (0, 0, False))
      else Inr (0, 0, False))"

text \<open>The part of \<open>main\<close> for the VJ codes.\<close>

definition process_vj :: "env \<Rightarrow> string option \<Rightarrow> bool \<Rightarrow> int \<Rightarrow> state \<Rightarrow> (abort \<times> state) + state" where
  "process_vj e halt start_in_vj start_number s =
     (let vj_start = (if start_in_vj then PInt start_number else vj_range ! 0);
          vj_end = vj_range ! 1
      in case py_add vj_end (PInt 1) of
           Inl err \<Rightarrow> Inl (Raised err, s)
         | Inr stop \<Rightarrow>
             (case as_int vj_start of
                Inl err \<Rightarrow> Inl (Raised err, s)
              | Inr lo \<Rightarrow>
                  (case as_int stop of
                     Inl err \<Rightarrow> Inl (Raised err, s)
                   | Inr hi \<Rightarrow> process_batches e halt ''VJ'' lo (hi - 1) s)))"

definition main :: "env \<Rightarrow> string option \<Rightarrow> state \<Rightarrow> (abort \<times> state) + state" where
  "main e halt disk =
     (let saved_id = load_progress disk;
          s = startup disk
      in case start_info saved_id of
           Inl err \<Rightarrow> Inl (Raised err, s)
         | Inr (start_number, rj_range_index, start_in_vj) \<Rightarrow>
             (case (if \<not> start_in_vj
                    then process_ranges e halt rj_ranges rj_range_index start_number rj_range_index s
                    else Inr s) of
                Inl a \<Rightarrow> Inl a
              | Inr s' \<Rightarrow>
                  (case process_vj e halt start_in_vj start_number s' of
                     Inl a \<Rightarrow> Inl a
                   | Inr s'' \<Rightarrow> Inr (s''\<lparr>temp_file := None\<rparr>))))"

text \<open>The state a step or a run ends in, whether it ends normally or not.\<close>

definition reached :: "('a \<times> state) + state \<Rightarrow> state" where
  "reached r = (case r of Inl (a, s) \<Rightarrow> s | Inr s \<Rightarrow> s)"

subsection \<open>Loading the catalog file\<close>

text \<open>
  What \<open>json.load\<close> returns: \<open>None\<close>, a truth value, a number, a string, a list or a
  dictionary. A dictionary is the list of its keys with their values, each key once.
\<close>

datatype json =
  JNull | JBool bool | JNumber int | JString string | JArray "json list"
  | JObject "(string \<times> json) list"

text \<open>
  What \<open>main\<close> finds at \<open>dlsite_database.json\<close>: no file, a file that \<open>open\<close> or
  \<open>json.load\<close> raises an exception on, or a file with a JSON document.
\<close>

datatype catalog_file = NoFile | LoadError | Loaded json

text \<open>
  The value of \<open>database\<close> after the loading block of \<open>main\<close>. The list \<open>[]\<close> it starts
  with stays when there is no file and when the \<open>except\<close> clause catches an exception.
\<close>

definition load_database :: "catalog_file \<Rightarrow> json" where
  "load_database f =
     (case f of
        NoFile \<Rightarrow> JArray []
      | LoadError \<Rightarrow> JArray []
      | Loaded db_data \<Rightarrow>
          (case db_data of
             JObject kvs \<Rightarrow>
               (case map_of kvs ''items'' of
                  Some its \<Rightarrow> its
                | None \<Rightarrow> db_data)
           | _ \<Rightarrow> db_data))"

text \<open>
  The runs below start from a catalog file whose items are entries with the four keys;
  \<open>db_file\<close> holds them, and \<open>startup\<close> is the loading block on such a file.
\<close>

subsection \<open>Example worlds\<close>

text \<open>A machine on which the crawler has never run.\<close>

definition empty_disk :: state where
  "empty_disk = \<lparr>database = [], temp_file = None, db_file = None, files = {}, visited = [],
                  downloads = []\<rparr>"

text \<open>
  The provider of the scenario of the specification, with RJ as the family: a work of an
  allowed site for number 1, a work of another site for number 2, nothing else.
\<close>

definition scenario_env :: env where
  "scenario_env =
     \<lparr>provider = (\<lambda>pid.
        if pid = ''RJ000001''
        then Found \<lparr>product_id = ''RJ000001'', site_id = ''maniax'', work_name = ''T1'',
                     circle = Some ''C1'', brand = None, work_image = None\<rparr>
        else if pid = ''RJ000002''
        then Found \<lparr>product_id = ''RJ000002'', site_id = ''books'', work_name = ''T2'',
                     circle = Some ''C2'', brand = None, work_image = None\<rparr>
        else NotFound),
      http = (\<lambda>url. Refused)\<rparr>"

text \<open>
  A provider that answers the request for \<open>RJ000001\<close> with the same work under its
  eight-digit identifier.
\<close>

definition echo_env :: env where
  "echo_env =
     \<lparr>provider = (\<lambda>pid.
        if pid = ''RJ000001''
        then Found \<lparr>product_id = ''RJ00000001'', site_id = ''maniax'', work_name = ''T1'',
                     circle = Some ''C1'', brand = None, work_image = None\<rparr>
        else NotFound),
      http = (\<lambda>url. Refused)\<rparr>"

text \<open>A provider that knows no identifier.\<close>

definition silent_env :: env where
  "silent_env = \<lparr>provider = (\<lambda>pid. NotFound), http = (\<lambda>url. Refused)\<rparr>"

subsection \<open>Conditions and notions used to state the properties\<close>

text \<open>The identifier of a number for which \<open>generate_id\<close> raises nothing.\<close>

definition the_id :: "int \<Rightarrow> string \<Rightarrow> string" where
  "the_id number code_type = (case generate_id number code_type of Inr pid \<Rightarrow> pid | Inl err \<Rightarrow> [])"

text \<open>
  Every work the provider returns that passes the site filter and has an image has a
  product identifier from which the image path can be computed, so that appending its
  entry raises nothing.
\<close>

definition images_resolve :: "env \<Rightarrow> bool" where
  "images_resolve e =
     (\<forall>pid w. provider e pid = Found w \<and> site_id w \<in> set [''maniax'', ''pro''] \<and>
        truthy (work_image w) \<longrightarrow> (\<exists>p. image_path (product_id w) = Inr p))"

text \<open>The numbers of the two declared RJ ranges up to \<open>k\<close>, and from \<open>n\<close> on.\<close>

definition rj_numbers_upto :: "int \<Rightarrow> int list" where
  "rj_numbers_upto k = [0..min k 499999] @ [1000000..k]"

definition rj_numbers_from :: "int \<Rightarrow> int list" where
  "rj_numbers_from n = [n..499999] @ [max n 1000000..1369999]"

text \<open>
  A single pass: \<open>main\<close> run to its end. A run in two phases: \<open>main\<close> terminated after
  the iteration of the identifier \<open>K\<close>, then \<open>main\<close> started again on what the first phase
  left on disk. Of each, the identifiers visited.
\<close>

definition single_pass_visits :: "env \<Rightarrow> state \<Rightarrow> string list" where
  "single_pass_visits e disk = visited (reached (main e None disk))"

definition two_phase_visits :: "env \<Rightarrow> string \<Rightarrow> state \<Rightarrow> string list" where
  "two_phase_visits e K disk =
     (let s1 = reached (main e (Some K) disk)
      in visited s1 @ visited (reached (main e None s1)))"

text \<open>
  The content of the cursor file after the iterations for the numbers from \<open>a\<close> to \<open>b\<close>,
  when it was \<open>t\<close> before: the identifier of the last multiple of ten among them, if any.
\<close>

definition cursor_after :: "string \<Rightarrow> int \<Rightarrow> int \<Rightarrow> string option \<Rightarrow> string option" where
  "cursor_after code_type a b t =
     (if a \<le> 10 * (b div 10) then Some (the_id (10 * (b div 10)) code_type) else t)"

section \<open>Properties of the codec\<close>

subsection \<open>Decimal conversion\<close>

lemma is_digit_digit_char: "d < 10 \<Longrightarrow> is_digit (digit_char d)"
proof -
  assume "d < 10"
  then have "d \<in> {0,1,2,3,4,5,6,7,8,9}" by auto
  then show ?thesis by (auto simp: is_digit_def digit_char_def)
qed

lemma digit_val_digit_char: "d < 10 \<Longrightarrow> digit_val (digit_char d) = int d"
proof -
  assume "d < 10"
  then have "d \<in> {0,1,2,3,4,5,6,7,8,9}" by auto
  then show ?thesis by (auto simp: digit_val_def digit_char_def)
qed

lemma digits_of_digits: "c \<in> set (digits_of n) \<Longrightarrow> is_digit c"
proof (induction n rule: digits_of.induct)
  case (1 n)
  show ?case
  proof (cases "n < 10")
    case True
    with 1(2) show ?thesis by (simp add: digits_of.simps [of n] is_digit_digit_char)
  next
    case False
    with 1 show ?thesis by (auto simp: digits_of.simps [of n] is_digit_digit_char)
  qed
qed

lemma digits_of_nonempty: "digits_of n \<noteq> []"
  by (subst digits_of.simps) simp

lemma digits_value_snoc:
  "is_digit c \<Longrightarrow> digits_value (s @ [c]) = 10 * digits_value s + digit_val c"
  by (simp add: digits_value_def)

lemma digits_value_digits_of: "digits_value (digits_of n) = int n"
proof (induction n rule: digits_of.induct)
  case (1 n)
  show ?case
  proof (cases "n < 10")
    case True
    then show ?thesis
      by (simp add: digits_of.simps [of n] digits_value_def is_digit_digit_char digit_val_digit_char)
  next
    case False
    have "10 * int (n div 10) + int (n mod 10) = int n" by presburger
    with False 1 show ?thesis
      by (simp add: digits_of.simps [of n] digits_value_snoc is_digit_digit_char digit_val_digit_char)
  qed
qed

lemma digitpart_digits: "\<forall>c \<in> set s. is_digit c \<Longrightarrow> prev \<or> s \<noteq> [] \<Longrightarrow> digitpart prev s"
  by (induction s arbitrary: prev) auto

lemma is_digit_not_space: "is_digit c \<Longrightarrow> \<not> is_space c"
  by (auto simp: is_digit_def is_space_def)

lemma is_digit_not_int_space: "is_digit c \<Longrightarrow> \<not> is_int_space c"
  by (auto simp: is_digit_def is_int_space_def)

lemma dropWhile_both_ends_id:
  assumes "s \<noteq> []" "\<not> P (hd s)" "\<not> P (last s)"
  shows "rev (dropWhile P (rev (dropWhile P s))) = s"
proof -
  from assms have 1: "dropWhile P s = s" by (cases s) auto
  from assms have "rev s \<noteq> []" "\<not> P (hd (rev s))" by (simp_all add: hd_rev)
  then have 2: "dropWhile P (rev s) = rev s" by (cases "rev s") auto
  show ?thesis by (simp add: 1 2)
qed

lemma strip_id: "s \<noteq> [] \<Longrightarrow> \<not> is_space (hd s) \<Longrightarrow> \<not> is_space (last s) \<Longrightarrow> strip s = s"
  unfolding strip_def by (rule dropWhile_both_ends_id)

lemma int_strip_id:
  "s \<noteq> [] \<Longrightarrow> \<not> is_int_space (hd s) \<Longrightarrow> \<not> is_int_space (last s) \<Longrightarrow> int_strip s = s"
  unfolding int_strip_def by (rule dropWhile_both_ends_id)

lemma digits_value_zeros: "digits_value (replicate k CHR ''0'' @ s) = digits_value s"
  by (induction k) (simp_all add: digits_value_def is_digit_def digit_val_def)

lemma is_digit_zero: "is_digit CHR ''0''"
  by (simp add: is_digit_def)

lemma filter_digits_id: "\<forall>c \<in> set s. is_digit c \<Longrightarrow> filter is_digit s = s"
  by (simp add: filter_id_conv)

text \<open>\<open>int\<close> of a string of digits: its value up to the limit, ValueError beyond.\<close>

lemma py_int_digits_cases:
  assumes "s \<noteq> []" "\<forall>c \<in> set s. is_digit c"
  shows "py_int s = (if length s \<le> max_str_digits then Inr (digits_value s) else Inl ValueError)"
proof -
  from assms have "is_digit (hd s)" "is_digit (last s)" by simp_all
  then have st: "int_strip s = s"
    using assms(1) by (simp add: int_strip_id is_digit_not_int_space)
  from assms obtain c cs where s: "s = c # cs" by (cases s) auto
  with assms have "is_digit c" by simp
  then have "c \<noteq> CHR ''-''" "c \<noteq> CHR ''+''" by (auto simp: is_digit_def)
  moreover have "digitpart False (c # cs)"
    using assms(2) digitpart_digits [of "c # cs" False] unfolding s by blast
  moreover have "int_strip (c # cs) = c # cs" using st unfolding s .
  moreover have "filter is_digit (c # cs) = c # cs"
    using filter_digits_id [OF assms(2)] unfolding s .
  ultimately show ?thesis
    unfolding s py_int_def by (simp del: digitpart.simps filter.simps)
qed

lemma py_int_digits:
  assumes "s \<noteq> []" "\<forall>c \<in> set s. is_digit c" "length s \<le> max_str_digits"
  shows "py_int s = Inr (digits_value s)"
  using py_int_digits_cases [OF assms(1,2)] assms(3) by simp

lemma py_int_padded:
  assumes "k + length (digits_of n) \<le> max_str_digits"
  shows "py_int (replicate k CHR ''0'' @ digits_of n) = Inr (int n)"
proof -
  have "py_int (replicate k CHR ''0'' @ digits_of n) = Inr (digits_value (replicate k CHR ''0'' @ digits_of n))"
    using assms by (intro py_int_digits) (auto simp: digits_of_nonempty is_digit_zero digits_of_digits)
  then show ?thesis by (simp add: digits_value_zeros digits_value_digits_of)
qed

lemma py_int_neg:
  assumes "length (digits_of n) \<le> max_str_digits"
  shows "py_int (CHR ''-'' # digits_of n) = Inr (- int n)"
proof -
  let ?s = "CHR ''-'' # digits_of n"
  have "\<not> is_int_space (last ?s)"
    using digits_of_digits [of "last (digits_of n)" n] digits_of_nonempty [of n]
    by (simp add: is_digit_not_int_space)
  moreover have "\<not> is_int_space (hd ?s)" by (simp add: is_int_space_def)
  ultimately have st: "int_strip ?s = ?s" by (simp add: int_strip_id)
  have "digitpart False (digits_of n)"
    by (simp add: digitpart_digits digits_of_digits digits_of_nonempty)
  moreover have "filter is_digit (digits_of n) = digits_of n"
    by (rule filter_digits_id) (simp add: digits_of_digits)
  ultimately show ?thesis using assms by (simp add: py_int_def st digits_value_digits_of)
qed

lemma length_digits_of: "0 < k \<Longrightarrow> n < 10 ^ k \<Longrightarrow> length (digits_of n) \<le> k"
proof (induction n arbitrary: k rule: digits_of.induct)
  case (1 n)
  show ?case
  proof (cases "n < 10")
    case True
    with 1(2) show ?thesis by (simp add: digits_of.simps [of n])
  next
    case False
    then obtain j where k: "k = Suc j" "0 < j"
      using 1(2,3) by (cases k; cases "k - 1") auto
    with 1(3) have "n div 10 < 10 ^ j" by (simp add: less_mult_imp_div_less mult.commute)
    with 1(1) [OF False k(2)] have "length (digits_of (n div 10)) \<le> j" .
    with False k show ?thesis by (simp add: digits_of.simps [of n])
  qed
qed

lemma digits_of_long: "10 ^ k \<le> n \<Longrightarrow> k < length (digits_of n)"
proof (induction n arbitrary: k rule: digits_of.induct)
  case (1 n)
  show ?case
  proof (cases "n < 10")
    case True
    have "k = 0"
    proof (rule ccontr)
      assume "k \<noteq> 0"
      then have "(10::nat) ^ 1 \<le> 10 ^ k" by (intro power_increasing) simp_all
      with 1(2) True show False by simp
    qed
    then show ?thesis by (simp add: digits_of.simps [of n])
  next
    case False
    show ?thesis
    proof (cases k)
      case 0
      then show ?thesis using digits_of_nonempty [of n] by simp
    next
      case (Suc j)
      with 1(2) have "10 ^ j * 10 \<le> n" by simp
      then have "10 ^ j \<le> n div 10" by (simp add: less_eq_div_iff_mult_less_eq)
      with 1(1) [OF False] have "j < length (digits_of (n div 10))" .
      with False Suc show ?thesis by (simp add: digits_of.simps [of n])
    qed
  qed
qed

lemma length_format_0d: "0 \<le> n \<Longrightarrow> n < 10 ^ w \<Longrightarrow> 0 < w \<Longrightarrow> length (format_0d w n) = w"
proof -
  assume a: "0 \<le> n" "n < 10 ^ w" "0 < w"
  then have "nat n < 10 ^ w" by (simp add: nat_less_iff)
  with a(3) have "length (digits_of (nat n)) \<le> w" by (rule length_digits_of)
  with a(1) show ?thesis by (simp add: format_0d_def)
qed

text \<open>\<open>str\<close> within the limit and beyond it.\<close>

lemma py_str_small:
  assumes "\<bar>n\<bar> < 10 ^ max_str_digits"
  shows "py_str n = Inr (if n < 0 then CHR ''-'' # digits_of (nat \<bar>n\<bar>) else digits_of (nat \<bar>n\<bar>))"
    and "length (digits_of (nat \<bar>n\<bar>)) \<le> max_str_digits"
proof -
  have "int (nat \<bar>n\<bar>) < int (10 ^ max_str_digits)" using assms by simp
  then have "nat \<bar>n\<bar> < 10 ^ max_str_digits" by (simp only: of_nat_less_iff)
  moreover have "0 < max_str_digits" by (simp add: max_str_digits_def)
  ultimately show l: "length (digits_of (nat \<bar>n\<bar>)) \<le> max_str_digits"
    by (intro length_digits_of)
  then show "py_str n = Inr (if n < 0 then CHR ''-'' # digits_of (nat \<bar>n\<bar>) else digits_of (nat \<bar>n\<bar>))"
    by (simp add: py_str_def Let_def)
qed

lemma py_str_large:
  assumes "10 ^ max_str_digits \<le> \<bar>n\<bar>"
  shows "py_str n = Inl ValueError"
proof -
  have "int (10 ^ max_str_digits) \<le> int (nat \<bar>n\<bar>)" using assms by simp
  then have "10 ^ max_str_digits \<le> nat \<bar>n\<bar>" by (simp only: of_nat_le_iff)
  then have "max_str_digits < length (digits_of (nat \<bar>n\<bar>))" by (rule digits_of_long)
  then show ?thesis by (simp add: py_str_def Let_def)
qed

text \<open>The identifiers of the numbers that have a padded form, and what parsing makes of them.\<close>

lemma generate_id_padded:
  assumes "code_type = ''RJ'' \<or> code_type = ''VJ''" "0 \<le> n" "n \<le> 9999999"
  shows "generate_id n code_type = Inr (code_type @ format_0d (if n < 1000000 then 6 else 8) n)"
  using assms by (auto simp: generate_id_def)

lemma length_padded:
  assumes "0 \<le> n" "n \<le> 9999999"
  shows "length (format_0d (if n < 1000000 then 6 else 8) n) = (if n < 1000000 then 6 else 8)"
  using assms by (simp add: length_format_0d)

lemma py_int_format_0d:
  assumes "0 \<le> n" "n \<le> 9999999"
  shows "py_int (format_0d (if n < 1000000 then 6 else 8) n) = Inr n"
proof -
  let ?w = "if n < 1000000 then 6 else 8 :: nat"
  have "length (format_0d ?w n) \<le> max_str_digits"
    unfolding length_padded [OF assms] by (simp add: max_str_digits_def)
  then have "?w - length (digits_of (nat n)) + length (digits_of (nat n)) \<le> max_str_digits"
    using assms(1) by (simp add: format_0d_def)
  from py_int_padded [OF this] show ?thesis using assms(1) by (simp add: format_0d_def)
qed

lemma extract_tagged:
  assumes "code_type = ''RJ'' \<or> code_type = ''VJ''"
  shows "extract_number_and_type (code_type @ rest) =
           (case py_int rest of Inl e \<Rightarrow> Inl e | Inr number \<Rightarrow> Inr (number, code_type))"
  using assms by (auto simp: extract_number_and_type_def)

lemma extract_padded:
  assumes "code_type = ''RJ'' \<or> code_type = ''VJ''" "0 \<le> n" "n \<le> 9999999"
  shows "extract_number_and_type (code_type @ format_0d (if n < 1000000 then 6 else 8) n) =
           Inr (n, code_type)"
  by (simp only: extract_tagged [OF assms(1)] py_int_format_0d [OF assms(2,3)] sum.case)

lemma round_trip_padded:
  assumes "code_type = ''RJ'' \<or> code_type = ''VJ''" "0 \<le> n" "n \<le> 9999999"
  shows "round_trip n code_type = Inr (n, code_type)"
  by (simp only: round_trip_def generate_id_padded [OF assms] sum.case extract_padded [OF assms])

text \<open>The identifiers without a padded form.\<close>

lemma generate_id_unpadded:
  assumes "n < 0 \<or> 9999999 < n"
  shows "generate_id n code_type = unpadded_id n code_type"
  using assms by (auto simp: generate_id_def)

lemma round_trip_unpadded:
  assumes "code_type = ''RJ'' \<or> code_type = ''VJ''" "n < 0 \<or> 9999999 < n" "\<bar>n\<bar> < 10 ^ max_str_digits"
  shows "round_trip n code_type = Inr (n, code_type)"
proof -
  note s = py_str_small [OF assms(3)]
  have "py_int (if n < 0 then CHR ''-'' # digits_of (nat \<bar>n\<bar>) else digits_of (nat \<bar>n\<bar>)) = Inr n"
  proof (cases "n < 0")
    case True
    with py_int_neg [OF s(2)] show ?thesis by simp
  next
    case False
    with py_int_padded [of 0 "nat \<bar>n\<bar>"] s(2) show ?thesis by simp
  qed
  then show ?thesis
    by (simp only: round_trip_def generate_id_unpadded [OF assms(2)] unpadded_id_def s(1)
        sum.case extract_tagged [OF assms(1)])
qed

lemma replicate_numeral_eval: "replicate (numeral k) x = x # replicate (pred_numeral k) x"
  by (simp add: numeral_eq_Suc)


subsection \<open>Round trips\<close>

text \<open>
  Claim C2. For both families and every number from 0 to 9999999, parsing the formatted
  identifier gives back the number and the family, and the identifier is the family tag
  followed by the number padded with zeros to 6 digits below 1000000 and to 8 digits from
  1000000 on.
\<close>

theorem codec_round_trip:
  assumes "code_type = ''RJ'' \<or> code_type = ''VJ''" and "0 \<le> number" and "number \<le> 9999999"
  shows "round_trip number code_type = Inr (number, code_type) \<and>
         generate_id number code_type =
           Inr (code_type @ format_0d (if number < 1000000 then 6 else 8) number) \<and>
         length (code_type @ format_0d (if number < 1000000 then 6 else 8) number) =
           (if number < 1000000 then 8 else 10)"
proof -
  have "length (code_type @ format_0d (if number < 1000000 then 6 else 8) number) =
      (if number < 1000000 then 8 else 10)"
    using assms(1) length_padded [OF assms(2,3)] by auto
  moreover note round_trip_padded [OF assms] generate_id_padded [OF assms]
  ultimately show ?thesis by blast
qed

lemmas codec_eval = generate_id_def unpadded_id_def py_str_def max_str_digits_def format_0d_def
  digits_of.simps digit_char_def Let_def replicate_numeral_eval

theorem codec_round_trip_witness:
  "round_trip 1305 ''RJ'' = Inr (1305, ''RJ'') \<and>
   generate_id 1305 ''RJ'' = Inr ''RJ001305'' \<and>
   round_trip 1000000 ''VJ'' = Inr (1000000, ''VJ'') \<and>
   generate_id 1000000 ''VJ'' = Inr ''VJ01000000''"
proof -
  have h1: "''RJ'' = ''RJ'' \<or> ''RJ'' = ''VJ''" "(0::int) \<le> 1305" "(1305::int) \<le> 9999999"
    by simp_all
  have h2: "''VJ'' = ''RJ'' \<or> ''VJ'' = ''VJ''" "(0::int) \<le> 1000000" "(1000000::int) \<le> 9999999"
    by simp_all
  note r1 = codec_round_trip [OF h1]
  note r2 = codec_round_trip [OF h2]
  have "generate_id 1305 ''RJ'' = Inr ''RJ001305''"
    "generate_id 1000000 ''VJ'' = Inr ''VJ01000000''"
    by (simp_all add: codec_eval)
  then show ?thesis using r1 [THEN conjunct1] r2 [THEN conjunct1] by blast
qed

text \<open>
  Claim C10, as stated, fails: an integer of more than 4300 digits is not converted to a
  string, so \<open>generate_id\<close> raises ValueError instead of returning an identifier.
\<close>

theorem codec_round_trip_beyond_limit:
  "round_trip (10 ^ max_str_digits) ''RJ'' = Inl ValueError"
proof -
  have "(9999999::int) < 10 ^ 7" by simp
  also have "(10::int) ^ 7 \<le> 10 ^ max_str_digits"
    by (rule power_increasing) (simp_all add: max_str_digits_def)
  finally have "generate_id (10 ^ max_str_digits) ''RJ'' = unpadded_id (10 ^ max_str_digits) ''RJ''"
    by (intro generate_id_unpadded) simp
  moreover have "py_str (10 ^ max_str_digits) = Inl ValueError"
    by (rule py_str_large) simp
  ultimately show ?thesis by (simp add: round_trip_def unpadded_id_def)
qed

text \<open>
  Claim C10, amended. For every integer of at most 4300 decimal digits, negative numbers and
  numbers above 9999999 included, and for both families, parsing the generated identifier
  gives back the number and the family; outside 0 to 9999999 the identifier is the family
  tag followed by the unpadded decimal form of the number. For an integer of more digits
  \<open>generate_id\<close> raises ValueError.
\<close>

theorem codec_round_trip_within_limit:
  "(\<bar>n\<bar> < 10 ^ max_str_digits \<longrightarrow>
      round_trip n ''RJ'' = Inr (n, ''RJ'') \<and> round_trip n ''VJ'' = Inr (n, ''VJ'') \<and>
      (n < 0 \<or> 9999999 < n \<longrightarrow>
         generate_id n ''RJ'' =
           Inr (''RJ'' @ (if n < 0 then ''-'' else []) @ digits_of (nat \<bar>n\<bar>)) \<and>
         generate_id n ''VJ'' =
           Inr (''VJ'' @ (if n < 0 then ''-'' else []) @ digits_of (nat \<bar>n\<bar>)))) \<and>
   (10 ^ max_str_digits \<le> \<bar>n\<bar> \<longrightarrow>
      generate_id n ''RJ'' = Inl ValueError \<and> generate_id n ''VJ'' = Inl ValueError)"
proof (intro conjI impI)
  assume small: "\<bar>n\<bar> < 10 ^ max_str_digits"
  show "round_trip n ''RJ'' = Inr (n, ''RJ'')"
  proof (cases "n < 0 \<or> 9999999 < n")
    case True
    then show ?thesis using small by (intro round_trip_unpadded) simp_all
  next
    case False
    then show ?thesis by (intro round_trip_padded) simp_all
  qed
  show "round_trip n ''VJ'' = Inr (n, ''VJ'')"
  proof (cases "n < 0 \<or> 9999999 < n")
    case True
    then show ?thesis using small by (intro round_trip_unpadded) simp_all
  next
    case False
    then show ?thesis by (intro round_trip_padded) simp_all
  qed
  assume out: "n < 0 \<or> 9999999 < n"
  show "generate_id n ''RJ'' = Inr (''RJ'' @ (if n < 0 then ''-'' else []) @ digits_of (nat \<bar>n\<bar>))"
    by (simp add: generate_id_unpadded [OF out] unpadded_id_def py_str_small(1) [OF small])
  show "generate_id n ''VJ'' = Inr (''VJ'' @ (if n < 0 then ''-'' else []) @ digits_of (nat \<bar>n\<bar>))"
    by (simp add: generate_id_unpadded [OF out] unpadded_id_def py_str_small(1) [OF small])
next
  assume large: "10 ^ max_str_digits \<le> \<bar>n\<bar>"
  have "(9999999::int) < 10 ^ 7" by simp
  also have "(10::int) ^ 7 \<le> 10 ^ max_str_digits"
    by (rule power_increasing) (simp_all add: max_str_digits_def)
  finally have out: "n < 0 \<or> 9999999 < n" using large by linarith
  show "generate_id n ''RJ'' = Inl ValueError"
    by (simp add: generate_id_unpadded [OF out] unpadded_id_def py_str_large [OF large])
  show "generate_id n ''VJ'' = Inl ValueError"
    by (simp add: generate_id_unpadded [OF out] unpadded_id_def py_str_large [OF large])
qed

theorem codec_round_trip_within_limit_witness:
  "round_trip (- 42) ''RJ'' = Inr (- 42, ''RJ'') \<and>
   generate_id (- 42) ''RJ'' = Inr ''RJ-42'' \<and>
   round_trip 12345678 ''VJ'' = Inr (12345678, ''VJ'') \<and>
   generate_id 12345678 ''VJ'' = Inr ''VJ12345678'' \<and>
   generate_id (- (10 ^ max_str_digits)) ''VJ'' = Inl ValueError"
proof -
  have "(10::int) ^ 8 \<le> 10 ^ max_str_digits"
    by (rule power_increasing) (simp_all add: max_str_digits_def)
  then have s: "\<bar>- 42 :: int\<bar> < 10 ^ max_str_digits" "\<bar>12345678 :: int\<bar> < 10 ^ max_str_digits"
    by simp_all
  have l: "(10::int) ^ max_str_digits \<le> \<bar>- (10 ^ max_str_digits)\<bar>" by simp
  have d: "digits_of (nat \<bar>- 42 :: int\<bar>) = ''42''" "digits_of (nat \<bar>12345678 :: int\<bar>) = ''12345678''"
    by (simp_all add: digits_of.simps digit_char_def)
  note r1 = codec_round_trip_within_limit [of "- 42", THEN conjunct1, rule_format, OF s(1)]
  note r2 = codec_round_trip_within_limit [of 12345678, THEN conjunct1, rule_format, OF s(2)]
  note r3 = codec_round_trip_within_limit [of "- (10 ^ max_str_digits)", THEN conjunct2,
      rule_format, OF l]
  have "generate_id (- 42) ''RJ'' = Inr ''RJ-42''"
    using r1 [THEN conjunct2, THEN conjunct2] unfolding d by simp
  moreover have "generate_id 12345678 ''VJ'' = Inr ''VJ12345678''"
    using r2 [THEN conjunct2, THEN conjunct2] unfolding d by simp
  ultimately show ?thesis
    using r1 [THEN conjunct1] r2 [THEN conjunct2, THEN conjunct1] r3 [THEN conjunct2] by blast
qed


subsection \<open>Parsing arbitrary strings\<close>












section \<open>Properties of the shard key\<close>

subsection \<open>Division by 1000 in double precision\<close>

lemma bit_length_0: "bit_length 0 = 0"
  by (simp add: bit_length.simps)

lemma bit_length_Suc_0: "bit_length (Suc 0) = Suc 0"
  by (simp add: bit_length.simps)

lemma bit_length_numeral: "bit_length (numeral k) = Suc (bit_length (numeral k div 2))"
  by (subst bit_length.simps) simp

lemma bit_length_less: "n < 2 ^ bit_length n"
proof (induction n rule: bit_length.induct)
  case (1 n)
  show ?case
  proof (cases "n = 0")
    case True
    then show ?thesis by (simp add: bit_length_0)
  next
    case False
    with 1 have "n div 2 < 2 ^ bit_length (n div 2)" by simp
    then have "n < 2 * 2 ^ bit_length (n div 2)" by linarith
    with False show ?thesis by (simp add: bit_length.simps [of n])
  qed
qed

lemma bit_length_le: "n < 2 ^ k \<Longrightarrow> bit_length n \<le> k"
proof (induction n arbitrary: k rule: bit_length.induct)
  case (1 n)
  show ?case
  proof (cases "n = 0")
    case True
    then show ?thesis by (simp add: bit_length_0)
  next
    case False
    with 1(2) obtain j where k: "k = Suc j" by (cases k) auto
    with 1(2) have "n div 2 < 2 ^ j" by auto
    with 1(1) [OF False] have "bit_length (n div 2) \<le> j" .
    with False k show ?thesis by (simp add: bit_length.simps [of n])
  qed
qed

lemma bit_length_pos: "0 < n \<Longrightarrow> 0 < bit_length n"
  by (subst bit_length.simps) simp

lemma round_half_even_cases:
  "round_half_even num den = num div den \<or> round_half_even num den = num div den + 1"
  by (simp add: round_half_even_def Let_def)

lemma round_half_even_up: "den < 2 * (num mod den) \<Longrightarrow> round_half_even num den = num div den + 1"
  by (simp add: round_half_even_def Let_def)

lemma round_half_even_exact: "0 < den \<Longrightarrow> num mod den = 0 \<Longrightarrow> round_half_even num den = num div den"
  by (simp add: round_half_even_def Let_def)

lemma ceil_between:
  fixes m k N :: int
  assumes "0 < N" "k * N < m" "m \<le> (k + 1) * N"
  shows "- ((- m) div N) = k + 1"
proof -
  have "(- m) div N = - (k + 1)"
  proof (rule int_div_pos_eq)
    show "- m = N * - (k + 1) + ((k + 1) * N - m)" by (simp add: algebra_simps)
    show "0 \<le> (k + 1) * N - m" using assms(3) by simp
    show "(k + 1) * N - m < N" using assms(2) by (simp add: algebra_simps)
  qed
  then show ?thesis by simp
qed

lemma ceil_exact:
  fixes k N :: int
  assumes "0 < N"
  shows "- ((- (k * N)) div N) = k"
proof -
  have "- (k * N) = (- k) * N" by simp
  then have "(- (k * N)) div N = - k" using assms by (metis less_int_code(1) nonzero_mult_div_cancel_right)
  then show ?thesis by simp
qed

text \<open>Rounding at scale \<open>2 ^ s\<close> with \<open>9 \<le> s\<close> never loses the fraction of a quotient by 1000.\<close>

lemma ceil_round_1000:
  fixes x s :: nat
  assumes "9 \<le> s"
  shows "- ((- int (round_half_even (x * 2 ^ s) 1000)) div 2 ^ s) = (int x + 999) div 1000"
proof -
  define N :: nat where "N = 2 ^ s"
  define k where "k = x div 1000"
  define r where "r = x mod 1000"
  define m where "m = round_half_even (x * N) 1000"
  have x: "x = 1000 * k + r" and r: "r < 1000" by (simp_all add: k_def r_def)
  have "(2::nat) ^ 9 \<le> 2 ^ s" using assms by (rule power_increasing) simp
  then have N: "512 \<le> N" by (simp add: N_def)
  have xN: "x * N = (k * N) * 1000 + r * N" by (simp add: x algebra_simps)
  have q: "(x * N) div 1000 = k * N + (r * N) div 1000" unfolding xN by simp
  have rem: "(x * N) mod 1000 = (r * N) mod 1000" unfolding xN by simp
  show ?thesis
  proof (cases "r = 0")
    case True
    then have "m = k * N" unfolding m_def using q rem by (simp add: round_half_even_exact)
    moreover have "(int x + 999) div 1000 = int k" using True x by simp
    moreover have "- ((- (int k * int N)) div int N) = int k" by (rule ceil_exact) (use N in simp)
    ultimately show ?thesis by (simp add: m_def N_def)
  next
    case False
    have up: "(int x + 999) div 1000 = int k + 1"
    proof -
      have "int x + 999 = 1000 * (int k + 1) + (int r - 1)" by (simp add: x)
      moreover have "0 \<le> int r - 1" "int r - 1 < 1000" using False r by simp_all
      ultimately show ?thesis by (rule int_div_pos_eq)
    qed
    have "r * N < 1000 * N" using r N by simp
    then have "(r * N) div 1000 < N" by (simp add: less_mult_imp_div_less mult.commute)
    then have hi: "m \<le> (k + 1) * N"
      using round_half_even_cases [of "x * N" 1000] unfolding m_def q by auto
    have lo: "k * N < m"
    proof (cases "1000 \<le> r * N")
      case True
      then have "0 < (r * N) div 1000" by (simp add: div_greater_zero_iff)
      then show ?thesis
        using round_half_even_cases [of "x * N" 1000] unfolding m_def q by auto
    next
      case nle: False
      then have "(r * N) mod 1000 = r * N" by simp
      moreover have "N \<le> r * N" using False by simp
      then have "512 \<le> r * N" using N by linarith
      ultimately have "1000 < 2 * ((x * N) mod 1000)" unfolding rem by linarith
      then have "m = (x * N) div 1000 + 1" unfolding m_def by (rule round_half_even_up)
      then show ?thesis unfolding q by simp
    qed
    have "- ((- int m) div int N) = int k + 1"
    proof (rule ceil_between)
      show "0 < int N" using N by simp
      show "int k * int N < int m" using lo by (metis of_nat_less_iff of_nat_mult)
      show "int m \<le> (int k + 1) * int N" using hi by (metis of_nat_le_iff of_nat_mult of_nat_Suc Suc_eq_plus1 of_nat_add of_nat_1)
    qed
    with up show ?thesis by (simp add: m_def N_def)
  qed
qed

lemmas float_eval = py_truediv_def nearest_double_def quotient_exponent_def math_ceil_def
  round_half_even_def bit_length_0 bit_length_Suc_0 bit_length_numeral Let_def
lemmas shard_eval = get_base_folder_def match_prefix_digits_def is_upper_def is_digit_def
  py_int_def int_strip_def is_int_space_def max_str_digits_def digits_value_def digit_val_def
  zfill_def py_str_def digits_of.simps digit_char_def


lemma bit_length_1000: "bit_length 1000 = 10"
  by (simp add: bit_length_numeral bit_length_Suc_0)

lemma quotient_exponent_1000:
  assumes "0 < x" "x < 1000 * 2 ^ 44"
  shows "- 62 \<le> quotient_exponent x 1000 \<and> quotient_exponent x 1000 \<le> - 9"
proof -
  define d where "d = int (bit_length x) - 10"
  have "x < 2 ^ 54" using assms(2) by simp
  then have "bit_length x \<le> 54" by (rule bit_length_le)
  moreover have "0 < bit_length x" using assms(1) by (rule bit_length_pos)
  ultimately have d: "- 9 \<le> d" "d \<le> 44" by (simp_all add: d_def)
  have "d \<le> 43" if "1000 * 2 ^ nat d \<le> x * 2 ^ nat (- d)"
  proof (rule ccontr)
    assume "\<not> d \<le> 43"
    with d have "d = 44" by simp
    with that assms(2) show False by simp
  qed
  with d have "- 62 \<le> (if 1000 * 2 ^ nat d \<le> x * 2 ^ nat (- d) then d - 52 else d - 53)"
    "(if 1000 * 2 ^ nat d \<le> x * 2 ^ nat (- d) then d - 52 else d - 53) \<le> - 9"
    by auto
  then show ?thesis
    unfolding quotient_exponent_def bit_length_1000 Let_def d_def [symmetric] of_nat_numeral
    by (simp del: power_numeral)
qed


lemma nearest_double_1000:
  assumes "0 < x" "x < 1000 * 2 ^ 44"
  shows "nearest_double x 1000 =
           Inr (round_half_even (x * 2 ^ nat (- quotient_exponent x 1000)) 1000, quotient_exponent x 1000)"
proof -
  define e where "e = quotient_exponent x 1000"
  define m where "m = round_half_even (x * 2 ^ nat (- e)) 1000"
  have e: "- 62 \<le> e" "e \<le> - 9" using quotient_exponent_1000 [OF assms] by (simp_all add: e_def)
  have "x \<le> 2 ^ 54" using assms(2) by simp
  moreover have "(2::nat) ^ nat (- e) \<le> 2 ^ 62" using e by (intro power_increasing) simp_all
  ultimately have "x * 2 ^ nat (- e) \<le> 2 ^ 54 * 2 ^ 62" by (rule mult_mono) simp_all
  also have "\<dots> = (2::nat) ^ 116" unfolding power_add [symmetric] by simp
  finally have "x * 2 ^ nat (- e) \<le> 2 ^ 116" .
  moreover have "(x * 2 ^ nat (- e)) div 1000 \<le> x * 2 ^ nat (- e)" by (rule div_le_dividend)
  ultimately have "(x * 2 ^ nat (- e)) div 1000 \<le> 2 ^ 116" by (rule order_trans [rotated])
  moreover have "m \<le> (x * 2 ^ nat (- e)) div 1000 + 1"
    using round_half_even_cases [of "x * 2 ^ nat (- e)" 1000] unfolding m_def by auto
  moreover have "(2::nat) ^ 116 + 1 \<le> 2 ^ 117" by simp
  ultimately have m: "m \<le> 2 ^ 117" by linarith
  have "(2::nat) ^ nat (e + 1074) \<le> 2 ^ 1065" using e by (intro power_increasing) simp_all
  with m have "m * 2 ^ nat (e + 1074) \<le> 2 ^ 117 * 2 ^ 1065" by (rule mult_mono) simp_all
  also have "\<dots> = (2::nat) ^ 1182" unfolding power_add [symmetric] by simp
  also have "\<dots> < (2::nat) ^ 2098" by (rule power_strict_increasing) simp_all
  finally have no: "\<not> 2 ^ 2098 \<le> m * 2 ^ nat (e + 1074)" by (simp only: not_le)
  have en: "nat e = 0" using e by simp
  show ?thesis
    unfolding nearest_double_def Let_def e_def [symmetric]
    using no unfolding m_def en by (simp only: power_0 mult_1_right if_False)
qed

lemma ceil_truediv_1000:
  assumes "0 \<le> a" "a < 1000 * 2 ^ 44"
  shows "\<exists>f. py_truediv a 1000 = Inr f \<and> math_ceil f = (a + 999) div 1000"
proof (cases "a = 0")
  case True
  then show ?thesis by (simp add: py_truediv_def math_ceil_def)
next
  case False
  define x where "x = nat a"
  define e where "e = quotient_exponent x 1000"
  define m where "m = round_half_even (x * 2 ^ nat (- e)) 1000"
  from False assms have x: "0 < x" "x < 1000 * 2 ^ 44" "int x = a"
    by (simp_all add: x_def nat_less_iff)
  have e: "- 62 \<le> e" "e \<le> - 9" using quotient_exponent_1000 [OF x(1,2)] by (simp_all add: e_def)
  have nd: "nearest_double x 1000 = Inr (m, e)"
    using nearest_double_1000 [OF x(1,2)] by (simp only: m_def e_def)
  have "nat \<bar>a\<bar> = x" "nat \<bar>1000::int\<bar> = 1000" using assms(1) by (simp_all add: x_def)
  then have "py_truediv a 1000 = Inr (int m, e)"
    using False assms(1) by (simp add: py_truediv_def nd)
  moreover have "9 \<le> nat (- e)" using e by simp
  then have "math_ceil (int m, e) = (a + 999) div 1000"
    using e ceil_round_1000 [of "nat (- e)" x] by (simp add: math_ceil_def m_def x(3))
  ultimately show ?thesis by blast
qed

subsection \<open>The key of a well-formed identifier\<close>

lemma is_digit_not_upper: "is_digit c \<Longrightarrow> \<not> is_upper c"
  by (auto simp: is_digit_def is_upper_def)

lemma match_prefix_digits_append:
  assumes "prefix \<noteq> []" "\<forall>c\<in>set prefix. is_upper c" "digits \<noteq> []" "\<forall>c\<in>set digits. is_digit c"
  shows "match_prefix_digits (prefix @ digits) = Some (prefix, digits)"
proof -
  from assms(3,4) obtain c cs where d: "digits = c # cs" "is_digit c" by (cases digits) auto
  then have nu: "\<not> is_upper c" by (simp add: is_digit_not_upper)
  have 1: "takeWhile is_upper (prefix @ digits) = prefix"
    using assms(2) nu unfolding d(1) by (simp add: takeWhile_tail)
  have 2: "dropWhile is_upper (prefix @ digits) = digits"
    using assms(2) nu unfolding d(1) by (simp add: dropWhile_append3)
  have 3: "takeWhile is_digit digits = digits" using assms(4) by (simp add: takeWhile_eq_all_conv)
  show ?thesis using assms(1,3) by (simp add: match_prefix_digits_def 1 2 3)
qed

lemma digit_val_range: "is_digit c \<Longrightarrow> 0 \<le> digit_val c \<and> digit_val c \<le> 9"
  by (auto simp: is_digit_def digit_val_def)

lemma digits_value_range:
  "\<forall>c\<in>set s. is_digit c \<Longrightarrow> 0 \<le> digits_value s \<and> digits_value s < 10 ^ length s"
proof (induction s rule: rev_induct)
  case Nil
  then show ?case by (simp add: digits_value_def)
next
  case (snoc c s)
  then have "0 \<le> digits_value s" "digits_value s + 1 \<le> 10 ^ length s" by simp_all
  moreover have "0 \<le> digit_val c" "digit_val c \<le> 9" using snoc.prems digit_val_range [of c] by simp_all
  moreover have "digits_value (s @ [c]) = 10 * digits_value s + digit_val c"
    using snoc.prems by (simp add: digits_value_snoc)
  ultimately show ?case by simp
qed

lemma zfill_digits_of:
  "zfill w (digits_of n) = replicate (w - length (digits_of n)) CHR ''0'' @ digits_of n"
proof -
  obtain c cs where d: "digits_of n = c # cs" using digits_of_nonempty [of n] by (cases "digits_of n") auto
  then have "is_digit c" using digits_of_digits [of c n] by simp
  then have "c \<noteq> CHR ''+''" "c \<noteq> CHR ''-''" by (auto simp: is_digit_def)
  then show ?thesis by (simp add: zfill_def d)
qed

lemma get_base_folder_digits:
  assumes "prefix \<noteq> []" "\<forall>c\<in>set prefix. is_upper c" "digits \<noteq> []" "\<forall>c\<in>set digits. is_digit c"
    and "digits_value digits < 1000 * 2 ^ 44" and "length digits \<le> max_str_digits"
  shows "get_base_folder (prefix @ digits) =
           Inr (Some (prefix @ zfill (length digits)
                  (digits_of (nat ((digits_value digits + 999) div 1000 * 1000)))))"
proof -
  define v where "v = digits_value digits"
  define base where "base = (v + 999) div 1000 * 1000"
  have v: "0 \<le> v" using digits_value_range [OF assms(4)] by (simp add: v_def)
  obtain f where f: "py_truediv v 1000 = Inr f" "math_ceil f = (v + 999) div 1000"
    using ceil_truediv_1000 [OF v] assms(5) unfolding v_def by blast
  have "base + (v + 999) mod 1000 = v + 999"
    unfolding base_def by (rule div_mult_mod_eq)
  moreover have "0 \<le> (v + 999) mod 1000" by simp
  ultimately have base: "0 \<le> base" "base < 10 ^ 17"
    using v assms(5) unfolding v_def [symmetric] base_def by simp_all
  have "(10::int) ^ 17 \<le> 10 ^ max_str_digits"
    by (rule power_increasing) (simp_all add: max_str_digits_def)
  with base have "\<bar>base\<bar> < 10 ^ max_str_digits" by linarith
  from py_str_small(1) [OF this] base(1) have "py_str base = Inr (digits_of (nat base))"
    by simp
  then have "py_str (math_ceil f * 1000) = Inr (digits_of (nat base))"
    by (simp only: f(2) base_def)
  then show ?thesis
    unfolding get_base_folder_def match_prefix_digits_append [OF assms(1-4)]
    by (simp add: py_int_digits [OF assms(3,4,6)] v_def [symmetric] f(1) base_def Let_def)
qed

text \<open>
  Claim C5, as stated, fails. Rounding 999999 up gives 1000000, which has seven digits:
  \<open>zfill\<close> pads and never cuts, so the key of a six-digit identifier is seven digits wide.
  And from seventeen digits on the quotient by 1000 is rounded to a double before
  \<open>math.ceil\<close> sees it, so the key can fall below the identifier.
\<close>

theorem get_base_folder_counterexample:
  "get_base_folder ''RJ999999'' = Inr (Some ''RJ1000000'') \<and>
   get_base_folder ''RJ17592186044416001'' = Inr (Some ''RJ17592186044416000'')"
  by (simp add: shard_eval float_eval)

text \<open>
  Claim C5, amended. For an identifier made of capital letters followed by at most sixteen
  digits, the shard key is the same letters followed by digits whose value is the
  identifier's number rounded up to the next multiple of 1000 (the number itself when it is
  a multiple of 1000), so at least the number and less than 1000 above it. The key's digit
  string is never shorter than the identifier's, and has the same width whenever the rounded
  number still fits in that width.
\<close>

theorem get_base_folder_rounds_up:
  assumes "prefix \<noteq> []" and "\<forall>c\<in>set prefix. is_upper c"
    and "digits \<noteq> []" and "\<forall>c\<in>set digits. is_digit c" and "length digits \<le> 16"
  shows "\<exists>key. get_base_folder (prefix @ digits) = Inr (Some (prefix @ key)) \<and>
           (\<forall>c\<in>set key. is_digit c) \<and>
           digits_value key = (digits_value digits + 999) div 1000 * 1000 \<and>
           digits_value digits \<le> digits_value key \<and>
           digits_value key < digits_value digits + 1000 \<and>
           (digits_value digits mod 1000 = 0 \<longrightarrow> digits_value key = digits_value digits) \<and>
           length digits \<le> length key \<and>
           (digits_value key < 10 ^ length digits \<longrightarrow> length key = length digits)"
proof -
  define v where "v = digits_value digits"
  define base where "base = (v + 999) div 1000 * 1000"
  define ds where "ds = digits_of (nat base)"
  define key where "key = zfill (length digits) ds"
  have v: "0 \<le> v" "v < 10 ^ length digits"
    using digits_value_range [OF assms(4)] by (simp_all add: v_def)
  have "(10::int) ^ length digits \<le> 10 ^ 16" using assms(5) by (intro power_increasing) simp_all
  with v(2) have small: "v < 1000 * 2 ^ 44" by simp
  have "base + (v + 999) mod 1000 = v + 999"
    unfolding base_def by (rule div_mult_mod_eq)
  moreover have "0 \<le> (v + 999) mod 1000" "(v + 999) mod 1000 < 1000" by simp_all
  ultimately have base: "v \<le> base" "base < v + 1000" "0 \<le> base"
    using v(1) by linarith+
  have base0: "base = v" if "v mod 1000 = 0"
  proof -
    from that have "1000 dvd v" by (simp add: dvd_eq_mod_eq_0)
    then obtain k where "v = k * 1000" by (auto simp: dvd_def mult.commute)
    then show ?thesis by (simp add: base_def)
  qed
  have key: "key = replicate (length digits - length ds) CHR ''0'' @ ds"
    by (simp add: key_def ds_def zfill_digits_of)
  have "length digits \<le> max_str_digits" using assms(5) by (simp add: max_str_digits_def)
  then have 1: "get_base_folder (prefix @ digits) = Inr (Some (prefix @ key))"
    using get_base_folder_digits [OF assms(1-4)] small
    by (simp add: v_def key_def ds_def base_def)
  have 2: "\<forall>c\<in>set key. is_digit c"
    unfolding key using digits_of_digits [of _ "nat base"] by (auto simp: ds_def is_digit_zero)
  have 3: "digits_value key = base"
    unfolding key using base(3) by (simp add: digits_value_zeros ds_def digits_value_digits_of)
  have 4: "length digits \<le> length key" unfolding key by simp
  have 5: "length key = length digits" if "base < 10 ^ length digits"
  proof -
    have "nat base < 10 ^ length digits" using that base(3) by (simp add: nat_less_iff)
    moreover have "0 < length digits" using assms(3) by simp
    ultimately have "length ds \<le> length digits" unfolding ds_def by (intro length_digits_of)
    then show ?thesis unfolding key by simp
  qed
  show ?thesis
  proof (intro exI [of _ key] conjI)
    show "get_base_folder (prefix @ digits) = Inr (Some (prefix @ key))" by (rule 1)
    show "\<forall>c\<in>set key. is_digit c" by (rule 2)
    show "digits_value key = (digits_value digits + 999) div 1000 * 1000"
      using 3 by (simp add: base_def v_def)
    show "digits_value digits \<le> digits_value key" using 3 base(1) by (simp add: v_def)
    show "digits_value key < digits_value digits + 1000" using 3 base(2) by (simp add: v_def)
    show "digits_value digits mod 1000 = 0 \<longrightarrow> digits_value key = digits_value digits"
      using 3 base0 by (simp add: v_def)
    show "length digits \<le> length key" by (rule 4)
    show "digits_value key < 10 ^ length digits \<longrightarrow> length key = length digits"
      using 3 5 by simp
  qed
qed

theorem get_base_folder_rounds_up_witness:
  "\<exists>key. get_base_folder ''RJ001305'' = Inr (Some (''RJ'' @ key)) \<and>
         digits_value key = 2000 \<and> length key = 6"
proof -
  have v: "digits_value ''001305'' = 1305"
    by (simp add: digits_value_def is_digit_def digit_val_def)
  have "''RJ'' \<noteq> []" "\<forall>c\<in>set ''RJ''. is_upper c" "''001305'' \<noteq> []"
    "\<forall>c\<in>set ''001305''. is_digit c" "length ''001305'' \<le> 16"
    by (simp_all add: is_upper_def is_digit_def)
  from get_base_folder_rounds_up [OF this] obtain key where
    k: "get_base_folder (''RJ'' @ ''001305'') = Inr (Some (''RJ'' @ key))"
      "digits_value key = (digits_value ''001305'' + 999) div 1000 * 1000"
      "digits_value key < 10 ^ length ''001305'' \<longrightarrow> length key = length ''001305''"
    by blast
  from k(2) have "digits_value key = 2000" unfolding v by simp
  moreover from this k(3) have "length key = 6" by simp
  ultimately show ?thesis using k(1) by auto
qed

section \<open>Properties of one iteration\<close>

lemma database_download_image [simp]:
  "database (snd (download_image e url save_path s)) = database s"
  by (cases "http e (fix_image_url (the url))") (simp_all add: download_image_def Let_def)

lemma database_repair_image:
  "repair_image e pid s = Inr s' \<Longrightarrow> database s' = database s"
  "repair_image e pid s = Inl (err, s') \<Longrightarrow> database s' = database s"
  by (cases "image_path pid"; cases "fetch_work_info e pid";
      simp add: repair_image_def split: if_splits; auto)+

lemma checkpointed_fields [simp]:
  "database (checkpointed pid number s) = database s"
  "files (checkpointed pid number s) = files s"
  "db_file (checkpointed pid number s) = db_file s"
  "downloads (checkpointed pid number s) = downloads s"
  "visited (checkpointed pid number s) = visited s @ [pid]"
  "temp_file (checkpointed pid number s) = (if number mod 10 = 0 then Some pid else temp_file s)"
  by (simp_all add: checkpointed_def save_progress_def)

lemma process_number_raises:
  "generate_id number code_type = Inl err \<Longrightarrow> process_number e code_type number s = Inl (err, s)"
  by (simp add: process_number_def)

lemma process_number_unfold:
  assumes "generate_id number code_type = Inr pid"
  shows "process_number e code_type number s =
     (case (if find (\<lambda>entry. code entry = pid) (database s) \<noteq> None
            then repair_image e pid (checkpointed pid number s)
            else ingest_new e pid (checkpointed pid number s)) of
        Inl a \<Rightarrow> Inl a
      | Inr s2 \<Rightarrow> Inr (if number mod 20 = 0 then s2\<lparr>db_file := Some (database s2)\<rparr> else s2))"
  by (simp only: process_number_def assms sum.case Let_def checkpointed_fields)

text \<open>
  Claim C7. When the provider answers the identifier of a number with a work whose site is
  neither maniax nor pro, the iteration for that number leaves the catalog in memory as it
  was, whether the iteration ends normally or raises.
\<close>

theorem disallowed_site_leaves_catalog:
  assumes "generate_id number code_type = Inr pid" and "provider e pid = Found w"
    and "site_id w \<noteq> ''maniax''" and "site_id w \<noteq> ''pro''"
  shows "database (reached (process_number e code_type number s)) = database s"
proof -
  let ?s1 = "checkpointed pid number s"
  have new: "ingest_new e pid ?s1 = Inr ?s1"
    using assms(2-4) by (simp add: ingest_new_def fetch_work_info_def)
  show ?thesis
  proof (cases "find (\<lambda>entry. code entry = pid) (database s) = None")
    case True
    have "process_number e code_type number s =
        Inr (if number mod 20 = 0 then ?s1\<lparr>db_file := Some (database ?s1)\<rparr> else ?s1)"
      by (simp only: process_number_unfold [OF assms(1)] True new) simp
    then show ?thesis by (simp add: reached_def)
  next
    case False
    have p: "process_number e code_type number s =
        (case repair_image e pid ?s1 of Inl a \<Rightarrow> Inl a
         | Inr s2 \<Rightarrow> Inr (if number mod 20 = 0 then s2\<lparr>db_file := Some (database s2)\<rparr> else s2))"
      by (simp only: process_number_unfold [OF assms(1)] False if_True not_False_eq_True)
    show ?thesis
    proof (cases "repair_image e pid ?s1")
      case (Inl a)
      obtain err s' where a: "a = (err, s')" by (cases a)
      with Inl database_repair_image(2) [of e pid ?s1 err s'] show ?thesis
        by (simp add: p reached_def)
    next
      case (Inr s2)
      with database_repair_image(1) [of e pid ?s1 s2] show ?thesis
        by (simp add: p reached_def)
    qed
  qed
qed

theorem disallowed_site_leaves_catalog_witness:
  "database (reached (process_number
          \<lparr>provider = (\<lambda>pid. Found \<lparr>product_id = pid, site_id = ''books'', work_name = ''T2'',
                                     circle = Some ''C2'', brand = None, work_image = None\<rparr>),
           http = (\<lambda>url. Saved)\<rparr>
          ''RJ'' 2
          \<lparr>database = [\<lparr>maker = ''C1'', code = ''RJ000001'', title = ''T1'',
                         translate_title = ''NaN''\<rparr>],
           temp_file = None, db_file = None, files = {}, visited = [], downloads = []\<rparr>)) =
     [\<lparr>maker = ''C1'', code = ''RJ000001'', title = ''T1'', translate_title = ''NaN''\<rparr>]"
proof -
  have g: "generate_id 2 ''RJ'' = Inr ''RJ000002''" by (simp add: codec_eval)
  show ?thesis
    using disallowed_site_leaves_catalog [OF g, of
      "\<lparr>provider = (\<lambda>pid. Found \<lparr>product_id = pid, site_id = ''books'', work_name = ''T2'',
                                     circle = Some ''C2'', brand = None, work_image = None\<rparr>),
           http = (\<lambda>url. Saved)\<rparr>"
      "\<lparr>product_id = ''RJ000002'', site_id = ''books'', work_name = ''T2'',
        circle = Some ''C2'', brand = None, work_image = None\<rparr>"
      "\<lparr>database = [\<lparr>maker = ''C1'', code = ''RJ000001'', title = ''T1'',
                         translate_title = ''NaN''\<rparr>],
           temp_file = None, db_file = None, files = {}, visited = [], downloads = []\<rparr>"]
    by simp
qed


section \<open>Runs on small universes\<close>

lemmas step_eval = process_number_def checkpointed_def save_progress_def ingest_new_def
  repair_image_def fetch_work_info_def truthy_def or_unknown_def download_image_def
  fix_image_url_def Let_def
lemmas loop_eval = process_sequential_ids.simps process_batches.simps process_ranges.simps
  batch_size_def

lemma generate_id_0_to_3:
  "generate_id 0 ''RJ'' = Inr ''RJ000000''" "generate_id 1 ''RJ'' = Inr ''RJ000001''"
  "generate_id 2 ''RJ'' = Inr ''RJ000002''" "generate_id 3 ''RJ'' = Inr ''RJ000003''"
  by (simp_all add: codec_eval)

text \<open>
  Claim C8, with RJ as family A. Over the universe of the single interval from 0 to 3 and
  from an empty catalog, the run ends normally; the catalog then holds the one record of
  \<open>RJ000001\<close>, in memory and in the catalog file.
\<close>

theorem scenario_catalog:
  "\<exists>s. process_ranges scenario_env None [(0, 3)] 0 0 0 empty_disk = Inr s \<and>
       database s = [\<lparr>maker = ''C1'', code = ''RJ000001'', title = ''T1'', translate_title = ''NaN''\<rparr>] \<and>
       visited s = [''RJ000000'', ''RJ000001'', ''RJ000002'', ''RJ000003''] \<and>
       db_file s = Some (database s)"
  by (simp add: loop_eval generate_id_0_to_3 step_eval scenario_env_def empty_disk_def)

text \<open>
  Claim C4 at a provider that echoes another form of the identifier. The first run appends
  the record under the echoed code \<open>RJ00000001\<close>. The second run looks the requested
  \<open>RJ000001\<close> up among the codes, finds nothing, asks the provider again and appends the
  same record a second time.
\<close>

theorem second_run_duplicates:
  "\<exists>s1 s2.
     process_ranges echo_env None [(0, 3)] 0 0 0 empty_disk = Inr s1 \<and>
     database s1 = [\<lparr>maker = ''C1'', code = ''RJ00000001'', title = ''T1'', translate_title = ''NaN''\<rparr>] \<and>
     process_ranges echo_env None [(0, 3)] 0 0 0 (startup s1) = Inr s2 \<and>
     database s2 = [\<lparr>maker = ''C1'', code = ''RJ00000001'', title = ''T1'', translate_title = ''NaN''\<rparr>,
                    \<lparr>maker = ''C1'', code = ''RJ00000001'', title = ''T1'', translate_title = ''NaN''\<rparr>]"
  by (simp add: loop_eval generate_id_0_to_3 step_eval echo_env_def empty_disk_def startup_def)


section \<open>Properties of the catalog loader\<close>

text \<open>
  Claim C9. The loader takes both forms of the file: from a dictionary with the key
  \<open>items\<close> the catalog is the value under that key, and a bare list is the catalog as it
  is. Without a file, and when opening or parsing the file raises, the catalog is the empty
  list and \<open>main\<close> goes on.
\<close>

theorem load_database_forms:
  "(map_of kvs ''items'' = Some its \<longrightarrow> load_database (Loaded (JObject kvs)) = its) \<and>
   load_database (Loaded (JArray xs)) = JArray xs \<and>
   load_database LoadError = JArray [] \<and>
   load_database NoFile = JArray []"
  by (simp add: load_database_def)

theorem load_database_forms_witness:
  "load_database (Loaded (JObject [(''updated_at'', JString ''2024-01-01 00:00:00''),
       (''items'', JArray [JObject [(''code'', JString ''RJ000001'')]])])) =
     JArray [JObject [(''code'', JString ''RJ000001'')]] \<and>
   load_database (Loaded (JArray [JObject [(''code'', JString ''RJ000001'')]])) =
     JArray [JObject [(''code'', JString ''RJ000001'')]]"
  using load_database_forms [of
      "[(''updated_at'', JString ''2024-01-01 00:00:00''),
        (''items'', JArray [JObject [(''code'', JString ''RJ000001'')]])]"
      "JArray [JObject [(''code'', JString ''RJ000001'')]]"
      "[JObject [(''code'', JString ''RJ000001'')]]"]
  by simp

section \<open>Properties of the enumeration\<close>

subsection \<open>One iteration never raises on the declared ranges\<close>

lemma format_0d_digits:
  assumes "0 \<le> n"
  shows "format_0d w n \<noteq> []" "\<forall>c\<in>set (format_0d w n). is_digit c"
    "digits_value (format_0d w n) = n"
  using assms digits_of_digits [of _ "nat n"]
  by (auto simp: format_0d_def digits_of_nonempty is_digit_zero digits_value_zeros
      digits_value_digits_of)

lemma the_id_padded:
  assumes "code_type = ''RJ'' \<or> code_type = ''VJ''" "0 \<le> n" "n \<le> 9999999"
  shows "generate_id n code_type = Inr (the_id n code_type)"
    and "the_id n code_type = code_type @ format_0d (if n < 1000000 then 6 else 8) n"
  by (simp_all add: the_id_def generate_id_padded [OF assms])

lemma the_id_inj:
  assumes "code_type = ''RJ'' \<or> code_type = ''VJ''" "0 \<le> n" "n \<le> 9999999"
    and "0 \<le> k" "k \<le> 9999999" and "the_id n code_type = the_id k code_type"
  shows "n = k"
proof -
  have "extract_number_and_type (the_id n code_type) = Inr (n, code_type)"
    unfolding the_id_padded(2) [OF assms(1-3)] using assms(1-3) by (rule extract_padded)
  moreover have "extract_number_and_type (the_id n code_type) = Inr (k, code_type)"
    unfolding assms(6) the_id_padded(2) [OF assms(1,4,5)] using assms(1,4,5) by (rule extract_padded)
  ultimately have "(Inr (n, code_type) :: error + int \<times> string) = Inr (k, code_type)"
    by (rule trans [OF sym])
  then show ?thesis by simp
qed

lemma image_path_the_id:
  assumes "code_type = ''RJ'' \<or> code_type = ''VJ''" "0 \<le> n" "n \<le> 9999999"
  shows "\<exists>p. image_path (the_id n code_type) = Inr p"
proof -
  let ?d = "format_0d (if n < 1000000 then 6 else 8) n"
  have "code_type \<noteq> []" "\<forall>c\<in>set code_type. is_upper c"
    using assms(1) by (auto simp: is_upper_def)
  moreover note format_0d_digits(1,2) [OF assms(2), of "if n < 1000000 then 6 else 8"]
  moreover have "digits_value ?d < 1000 * 2 ^ 44"
    using assms(3) by (simp only: format_0d_digits(3) [OF assms(2)]) simp
  moreover have "length ?d \<le> max_str_digits"
    unfolding length_padded [OF assms(2,3)] by (simp add: max_str_digits_def)
  ultimately have "\<exists>k. get_base_folder (code_type @ ?d) = Inr (Some k)"
    using get_base_folder_digits [of code_type ?d] by blast
  then show ?thesis
    unfolding the_id_padded(2) [OF assms] by (auto simp: image_path_def)
qed

lemma download_image_fields [simp]:
  "visited (snd (download_image e url save_path s)) = visited s"
  "temp_file (snd (download_image e url save_path s)) = temp_file s"
  "db_file (snd (download_image e url save_path s)) = db_file s"
  by (cases "http e (fix_image_url (the url))"; simp add: download_image_def Let_def)+

lemma repair_image_Inr:
  assumes "image_path pid = Inr p"
  shows "\<exists>s'. repair_image e pid s = Inr s' \<and> visited s' = visited s \<and> temp_file s' = temp_file s"
  using assms by (cases "fetch_work_info e pid") (simp_all add: repair_image_def)

lemma ingest_new_Inr:
  assumes "images_resolve e"
  shows "\<exists>s'. ingest_new e pid s = Inr s' \<and> visited s' = visited s \<and> temp_file s' = temp_file s"
proof (cases "provider e pid")
  case (Found w)
  show ?thesis
  proof (cases "site_id w \<in> set [''maniax'', ''pro''] \<and> truthy (work_image w)")
    case True
    with assms Found obtain p where "image_path (product_id w) = Inr p"
      unfolding images_resolve_def by blast
    with True Found show ?thesis
      by (simp add: ingest_new_def fetch_work_info_def Let_def)
  next
    case False
    with Found show ?thesis
      by (auto simp: ingest_new_def fetch_work_info_def Let_def)
  qed
qed (simp_all add: ingest_new_def fetch_work_info_def)

lemma process_number_Inr:
  assumes "images_resolve e" "code_type = ''RJ'' \<or> code_type = ''VJ''" "0 \<le> n" "n \<le> 9999999"
  shows "\<exists>s'. process_number e code_type n s = Inr s' \<and>
           visited s' = visited s @ [the_id n code_type] \<and>
           temp_file s' = (if n mod 10 = 0 then Some (the_id n code_type) else temp_file s)"
proof -
  let ?pid = "the_id n code_type"
  let ?s1 = "checkpointed ?pid n s"
  note g = the_id_padded(1) [OF assms(2-4)]
  obtain p where p: "image_path ?pid = Inr p"
    using image_path_the_id [OF assms(2-4)] by blast
  obtain s2 where s2: "(if find (\<lambda>entry. code entry = ?pid) (database s) \<noteq> None
            then repair_image e ?pid ?s1 else ingest_new e ?pid ?s1) = Inr s2"
      "visited s2 = visited ?s1" "temp_file s2 = temp_file ?s1"
    using repair_image_Inr [OF p, of e ?s1] ingest_new_Inr [OF assms(1), of ?pid ?s1]
    by (cases "find (\<lambda>entry. code entry = ?pid) (database s) \<noteq> None") auto
  have "process_number e code_type n s =
      Inr (if n mod 20 = 0 then s2\<lparr>db_file := Some (database s2)\<rparr> else s2)"
    by (simp only: process_number_unfold [OF g] s2(1)) simp
  with s2(2,3) show ?thesis by simp
qed


subsection \<open>The cursor\<close>

lemma cursor_after_step:
  assumes "a \<le> b"
  shows "cursor_after ct (a + 1) b (if a mod 10 = 0 then Some (the_id a ct) else t) =
         cursor_after ct a b t"
proof -
  have b: "b = 10 * (b div 10) + b mod 10" "0 \<le> b mod 10" "b mod 10 < 10" by simp_all
  have a: "a = 10 * (a div 10) + a mod 10" "0 \<le> a mod 10" "a mod 10 < 10" by simp_all
  consider "a + 1 \<le> 10 * (b div 10)" | "a = 10 * (b div 10)" | "10 * (b div 10) < a"
    by linarith
  then show ?thesis
  proof cases
    case 1
    then show ?thesis by (simp add: cursor_after_def)
  next
    case 2
    then have "a mod 10 = 0" by simp
    with 2 show ?thesis by (simp add: cursor_after_def)
  next
    case 3
    have "a mod 10 \<noteq> 0"
    proof
      assume "a mod 10 = 0"
      with a(1) have "a = 10 * (a div 10)" by simp
      with 3 assms b have "b div 10 < a div 10" "a div 10 \<le> b div 10"
        by (simp_all add: zdiv_mono1)
      then show False by simp
    qed
    with 3 show ?thesis by (simp add: cursor_after_def)
  qed
qed

lemma cursor_after_single:
  "cursor_after ct k k t = (if k mod 10 = 0 then Some (the_id k ct) else t)"
proof -
  have k: "k = 10 * (k div 10) + k mod 10" "0 \<le> k mod 10" by simp_all
  show ?thesis
  proof (cases "k mod 10 = 0")
    case True
    with k(1) have "10 * (k div 10) = k" by simp
    with True show ?thesis by (simp add: cursor_after_def)
  next
    case False
    with k have "10 * (k div 10) < k" by linarith
    with False show ?thesis by (simp add: cursor_after_def)
  qed
qed

lemma cursor_after_append:
  assumes "a \<le> m + 1" "m \<le> b"
  shows "cursor_after ct (m + 1) b (cursor_after ct a m t) = cursor_after ct a b t"
proof (cases "m + 1 \<le> 10 * (b div 10)")
  case True
  with assms show ?thesis by (simp add: cursor_after_def)
next
  case False
  have b: "b = 10 * (b div 10) + b mod 10" "0 \<le> b mod 10" "b mod 10 < 10" by simp_all
  have "m = 10 * (b div 10) + (m - 10 * (b div 10))" by simp
  moreover have "0 \<le> m - 10 * (b div 10)" "m - 10 * (b div 10) < 10"
    using False assms(2) b by linarith+
  ultimately have "m div 10 = b div 10" by (rule int_div_pos_eq)
  with False show ?thesis by (simp add: cursor_after_def)
qed

lemma cursor_after_empty: "b < a \<Longrightarrow> cursor_after ct a b t = t"
proof -
  assume "b < a"
  moreover have "10 * (b div 10) \<le> b" by simp
  ultimately show ?thesis by (simp add: cursor_after_def)
qed


subsection \<open>A range of numbers\<close>

lemma halt_test:
  assumes "generate_id a ct = Inr (the_id a ct)"
  shows "(map_option Inr halt = Some (generate_id a ct)) = (halt = Some (the_id a ct))"
  unfolding assms by (cases halt) auto

lemma process_sequential_ids_step:
  assumes "a \<le> b" "process_number e ct a s = Inr s1" "generate_id a ct = Inr (the_id a ct)"
  shows "process_sequential_ids e halt a b ct s =
           (if halt = Some (the_id a ct) then Inl (Terminated, s1)
            else process_sequential_ids e halt (a + 1) b ct s1)"
proof -
  have "\<not> b < a" using assms(1) by simp
  then show ?thesis
    by (subst process_sequential_ids.simps)
      (simp only: if_False assms(2) sum.case halt_test [OF assms(3)])
qed

lemma process_sequential_ids_run:
  assumes "images_resolve e" and "ct = ''RJ'' \<or> ct = ''VJ''" and "b \<le> 9999999"
    and "0 \<le> a" and "\<forall>n. a \<le> n \<and> n \<le> b \<longrightarrow> halt \<noteq> Some (the_id n ct)"
  shows "\<exists>s'. process_sequential_ids e halt a b ct s = Inr s' \<and>
           visited s' = visited s @ map (\<lambda>n. the_id n ct) [a..b] \<and>
           temp_file s' = cursor_after ct a b (temp_file s)"
  using assms(4,5)
proof (induction "nat (b + 1 - a)" arbitrary: a s)
  case 0
  then have "b < a" by simp
  then show ?case
    by (simp add: process_sequential_ids.simps [of e halt a b] cursor_after_empty)
next
  case (Suc x)
  then have ab: "a \<le> b" by simp
  then have a9: "a \<le> 9999999" using assms(3) by simp
  obtain s1 where s1: "process_number e ct a s = Inr s1"
    "visited s1 = visited s @ [the_id a ct]"
    "temp_file s1 = (if a mod 10 = 0 then Some (the_id a ct) else temp_file s)"
    using process_number_Inr [OF assms(1,2) Suc.prems(1) a9, of s] by auto
  have nh: "halt \<noteq> Some (the_id a ct)" using Suc.prems(2) ab by simp
  have step: "process_sequential_ids e halt a b ct s = process_sequential_ids e halt (a + 1) b ct s1"
    using process_sequential_ids_step [OF ab s1(1) the_id_padded(1) [OF assms(2) Suc.prems(1) a9]] nh
    by simp
  have "x = nat (b + 1 - (a + 1))" using Suc.hyps(2) by simp
  moreover have "0 \<le> a + 1" using Suc.prems(1) by simp
  moreover have "\<forall>n. a + 1 \<le> n \<and> n \<le> b \<longrightarrow> halt \<noteq> Some (the_id n ct)"
    using Suc.prems(2) by simp
  ultimately obtain s' where s': "process_sequential_ids e halt (a + 1) b ct s1 = Inr s'"
    "visited s' = visited s1 @ map (\<lambda>n. the_id n ct) [a + 1..b]"
    "temp_file s' = cursor_after ct (a + 1) b (temp_file s1)"
    using Suc.hyps(1) [of "a + 1" s1] by blast
  have "[a..b] = a # [a + 1..b]" using ab by (rule upto_rec1)
  then have "visited s' = visited s @ map (\<lambda>n. the_id n ct) [a..b]"
    by (simp add: s'(2) s1(2))
  moreover have "temp_file s' = cursor_after ct a b (temp_file s)"
    unfolding s'(3) s1(3) using ab by (rule cursor_after_step)
  ultimately show ?case using step s'(1) by simp
qed

lemma process_sequential_ids_halted:
  assumes "images_resolve e" and "ct = ''RJ'' \<or> ct = ''VJ''" and "b \<le> 9999999"
    and "k \<le> b" and "halt = Some (the_id k ct)"
    and "0 \<le> a" and "a \<le> k"
  shows "\<exists>s'. process_sequential_ids e halt a b ct s = Inl (Terminated, s') \<and>
           visited s' = visited s @ map (\<lambda>n. the_id n ct) [a..k] \<and>
           temp_file s' = cursor_after ct a k (temp_file s)"
  using assms(6,7)
proof (induction "nat (k - a)" arbitrary: a s)
  case 0
  then have ak: "a = k" by simp
  have k9: "0 \<le> k" "k \<le> 9999999" using 0(2) ak assms(3,4) by simp_all
  obtain s1 where s1: "process_number e ct k s = Inr s1"
    "visited s1 = visited s @ [the_id k ct]"
    "temp_file s1 = (if k mod 10 = 0 then Some (the_id k ct) else temp_file s)"
    using process_number_Inr [OF assms(1,2) k9, of s] by auto
  have "process_sequential_ids e halt k b ct s = Inl (Terminated, s1)"
    using process_sequential_ids_step [OF assms(4) s1(1) the_id_padded(1) [OF assms(2) k9]] assms(5)
    by simp
  then show ?case unfolding ak by (simp add: s1 cursor_after_single)
next
  case (Suc x)
  then have ak: "a < k" by simp
  then have ab: "a \<le> b" and a9: "a \<le> 9999999" and k9: "0 \<le> k" "k \<le> 9999999"
    using assms(3,4) Suc.prems(1) by simp_all
  obtain s1 where s1: "process_number e ct a s = Inr s1"
    "visited s1 = visited s @ [the_id a ct]"
    "temp_file s1 = (if a mod 10 = 0 then Some (the_id a ct) else temp_file s)"
    using process_number_Inr [OF assms(1,2) Suc.prems(1) a9, of s] by auto
  have "the_id a ct \<noteq> the_id k ct"
    using the_id_inj [OF assms(2) Suc.prems(1) a9 k9] ak by auto
  then have nh: "halt \<noteq> Some (the_id a ct)" using assms(5) by simp
  have step: "process_sequential_ids e halt a b ct s = process_sequential_ids e halt (a + 1) b ct s1"
    using process_sequential_ids_step [OF ab s1(1) the_id_padded(1) [OF assms(2) Suc.prems(1) a9]] nh
    by simp
  have "x = nat (k - (a + 1))" using Suc.hyps(2) by simp
  moreover have "0 \<le> a + 1" "a + 1 \<le> k" using Suc.prems(1) ak by simp_all
  ultimately obtain s' where s': "process_sequential_ids e halt (a + 1) b ct s1 = Inl (Terminated, s')"
    "visited s' = visited s1 @ map (\<lambda>n. the_id n ct) [a + 1..k]"
    "temp_file s' = cursor_after ct (a + 1) k (temp_file s1)"
    using Suc.hyps(1) [of "a + 1" s1] by blast
  have "[a..k] = a # [a + 1..k]" using ak by (intro upto_rec1) simp
  then have "visited s' = visited s @ map (\<lambda>n. the_id n ct) [a..k]"
    by (simp add: s'(2) s1(2))
  moreover have "temp_file s' = cursor_after ct a k (temp_file s)"
    unfolding s'(3) s1(3) using ak by (intro cursor_after_step) simp
  ultimately show ?case using step s'(1) by simp
qed


subsection \<open>A range in batches\<close>

lemma upto_batches:
  fixes a b :: int
  assumes "a \<le> b"
  shows "[a..min (a + 999) b] @ [a + 1000..b] = [a..b]"
proof (cases "a + 999 \<le> b")
  case True
  then have "[a..b] = [a..a + 999] @ [a + 999 + 1..b]" by (intro upto_split2) simp_all
  moreover have "a + 999 + 1 = a + 1000" by simp
  moreover have "min (a + 999) b = a + 999" using True by simp
  ultimately show ?thesis by (simp only:)
next
  case False
  then have "[a + 1000..b] = []" "min (a + 999) b = b" by simp_all
  then show ?thesis by (simp only: append_Nil2)
qed

lemma cursor_after_batches:
  assumes "a \<le> b"
  shows "cursor_after ct (a + 1000) b (cursor_after ct a (min (a + 999) b) t) = cursor_after ct a b t"
proof (cases "a + 999 \<le> b")
  case True
  then have "cursor_after ct (a + 999 + 1) b (cursor_after ct a (a + 999) t) = cursor_after ct a b t"
    by (intro cursor_after_append) simp_all
  moreover have "a + 999 + 1 = a + 1000" by simp
  moreover have "min (a + 999) b = a + 999" using True by simp
  ultimately show ?thesis by (simp only:)
next
  case False
  then have "b < a + 1000" "min (a + 999) b = b" by simp_all
  then show ?thesis by (simp only: cursor_after_empty)
qed

lemma process_batches_unfold:
  assumes "a \<le> b"
  shows "process_batches e halt ct a b s =
     (case process_sequential_ids e halt a (min (a + 999) b) ct s of
        Inl x \<Rightarrow> Inl x
      | Inr s' \<Rightarrow> process_batches e halt ct (a + 1000) b (s'\<lparr>db_file := Some (database s')\<rparr>))"
proof -
  have "a + batch_size - 1 = a + 999" "a + batch_size = a + 1000" "\<not> b < a"
    using assms by (simp_all add: batch_size_def)
  then show ?thesis
    by (subst process_batches.simps) (simp only: Let_def if_False)
qed

lemma process_batches_run:
  assumes "images_resolve e" and "ct = ''RJ'' \<or> ct = ''VJ''" and "b \<le> 9999999"
    and "0 \<le> a" and "\<forall>n. a \<le> n \<and> n \<le> b \<longrightarrow> halt \<noteq> Some (the_id n ct)"
  shows "\<exists>s'. process_batches e halt ct a b s = Inr s' \<and>
           visited s' = visited s @ map (\<lambda>n. the_id n ct) [a..b] \<and>
           temp_file s' = cursor_after ct a b (temp_file s)"
  using assms(4,5)
proof (induction "nat (b + 1 - a)" arbitrary: a s rule: less_induct)
  case less
  show ?case
  proof (cases "b < a")
    case True
    then show ?thesis
      by (simp add: process_batches.simps [of e halt ct a b] cursor_after_empty)
  next
    case False
    then have ab: "a \<le> b" by simp
    let ?m = "min (a + 999) b"
    have "?m \<le> 9999999" using assms(3) by simp
    moreover have "\<forall>n. a \<le> n \<and> n \<le> ?m \<longrightarrow> halt \<noteq> Some (the_id n ct)"
      using less.prems(2) by simp
    ultimately obtain s1 where s1: "process_sequential_ids e halt a ?m ct s = Inr s1"
      "visited s1 = visited s @ map (\<lambda>n. the_id n ct) [a..?m]"
      "temp_file s1 = cursor_after ct a ?m (temp_file s)"
      using process_sequential_ids_run [OF assms(1,2) _ less.prems(1), of ?m halt s] by blast
    let ?s1 = "s1\<lparr>db_file := Some (database s1)\<rparr>"
    have step: "process_batches e halt ct a b s = process_batches e halt ct (a + 1000) b ?s1"
      by (simp only: process_batches_unfold [OF ab] s1(1) sum.case)
    have "nat (b + 1 - (a + 1000)) < nat (b + 1 - a)" using ab by simp
    moreover have "0 \<le> a + 1000" using less.prems(1) by simp
    moreover have "\<forall>n. a + 1000 \<le> n \<and> n \<le> b \<longrightarrow> halt \<noteq> Some (the_id n ct)"
      using less.prems(2) by simp
    ultimately obtain s' where s': "process_batches e halt ct (a + 1000) b ?s1 = Inr s'"
      "visited s' = visited ?s1 @ map (\<lambda>n. the_id n ct) [a + 1000..b]"
      "temp_file s' = cursor_after ct (a + 1000) b (temp_file ?s1)"
      using less.hyps [of "a + 1000" ?s1] by blast
    have "visited s' = visited s @ map (\<lambda>n. the_id n ct) ([a..?m] @ [a + 1000..b])"
      by (simp add: s'(2) s1(2))
    then have "visited s' = visited s @ map (\<lambda>n. the_id n ct) [a..b]"
      by (simp only: upto_batches [OF ab])
    moreover have "temp_file s' = cursor_after ct a b (temp_file s)"
      using cursor_after_batches [OF ab, of ct "temp_file s"] by (simp add: s'(3) s1(3))
    ultimately show ?thesis using step s'(1) by simp
  qed
qed

lemma process_batches_halted:
  assumes "images_resolve e" and "ct = ''RJ'' \<or> ct = ''VJ''" and "b \<le> 9999999"
    and "k \<le> b" and "halt = Some (the_id k ct)"
    and "0 \<le> a" and "a \<le> k"
  shows "\<exists>s'. process_batches e halt ct a b s = Inl (Terminated, s') \<and>
           visited s' = visited s @ map (\<lambda>n. the_id n ct) [a..k] \<and>
           temp_file s' = cursor_after ct a k (temp_file s)"
  using assms(6,7)
proof (induction "nat (k + 1 - a)" arbitrary: a s rule: less_induct)
  case less
  have ab: "a \<le> b" using less.prems(2) assms(4) by simp
  let ?m = "min (a + 999) b"
  have m: "?m \<le> 9999999" using assms(3) by simp
  show ?case
  proof (cases "k \<le> ?m")
    case True
    obtain s' where s': "process_sequential_ids e halt a ?m ct s = Inl (Terminated, s')"
      "visited s' = visited s @ map (\<lambda>n. the_id n ct) [a..k]"
      "temp_file s' = cursor_after ct a k (temp_file s)"
      using process_sequential_ids_halted [OF assms(1,2) m True assms(5) less.prems, of s] by blast
    have "process_batches e halt ct a b s = Inl (Terminated, s')"
      by (simp only: process_batches_unfold [OF ab] s'(1) sum.case)
    with s'(2,3) show ?thesis by simp
  next
    case False
    then have km: "a + 999 < k" "?m = a + 999" using assms(4) by linarith+
    have "\<forall>n. a \<le> n \<and> n \<le> ?m \<longrightarrow> halt \<noteq> Some (the_id n ct)"
    proof (intro allI impI)
      fix n assume n: "a \<le> n \<and> n \<le> ?m"
      with False have "n \<noteq> k" by auto
      moreover have "0 \<le> n" "n \<le> 9999999" "0 \<le> k" "k \<le> 9999999"
        using n m less.prems assms(3,4) by simp_all
      ultimately have "the_id n ct \<noteq> the_id k ct"
        using the_id_inj [OF assms(2), of n k] by auto
      then show "halt \<noteq> Some (the_id n ct)" by (simp add: assms(5))
    qed
    then obtain s1 where s1: "process_sequential_ids e halt a ?m ct s = Inr s1"
      "visited s1 = visited s @ map (\<lambda>n. the_id n ct) [a..?m]"
      "temp_file s1 = cursor_after ct a ?m (temp_file s)"
      using process_sequential_ids_run [OF assms(1,2) m less.prems(1), of halt s] by blast
    let ?s1 = "s1\<lparr>db_file := Some (database s1)\<rparr>"
    have step: "process_batches e halt ct a b s = process_batches e halt ct (a + 1000) b ?s1"
      by (simp only: process_batches_unfold [OF ab] s1(1) sum.case)
    have "nat (k + 1 - (a + 1000)) < nat (k + 1 - a)" using km by simp
    moreover have "0 \<le> a + 1000" "a + 1000 \<le> k" using less.prems(1) km by simp_all
    ultimately obtain s' where s': "process_batches e halt ct (a + 1000) b ?s1 = Inl (Terminated, s')"
      "visited s' = visited ?s1 @ map (\<lambda>n. the_id n ct) [a + 1000..k]"
      "temp_file s' = cursor_after ct (a + 1000) k (temp_file ?s1)"
      using less.hyps [of "a + 1000" ?s1] by blast
    have ak: "a \<le> k" "min (a + 999) k = a + 999" using km by simp_all
    have "visited s' = visited s @ map (\<lambda>n. the_id n ct) ([a..a + 999] @ [a + 1000..k])"
      by (simp add: s'(2) s1(2) km(2))
    then have "visited s' = visited s @ map (\<lambda>n. the_id n ct) [a..k]"
      using upto_batches [OF ak(1)] by (simp only: ak(2))
    moreover have "temp_file s' = cursor_after ct a k (temp_file s)"
      using cursor_after_batches [OF ak(1), of ct "temp_file s"]
      by (simp add: s'(3) s1(3) km(2) ak(2))
    ultimately show ?thesis using step s'(1) by simp
  qed
qed

subsection \<open>The RJ ranges and \<open>main\<close>\<close>

lemma process_ranges_done:
  "length ranges \<le> i \<Longrightarrow> process_ranges e halt ranges ri sn i s = Inr s"
  by (subst process_ranges.simps) simp

lemma process_ranges_last:
  assumes "Suc i = length ranges"
  shows "process_ranges e halt ranges ri sn i s =
     process_batches e halt ''RJ'' (if i = ri then sn else fst (ranges ! i)) (snd (ranges ! i)) s"
proof -
  have "(case x of Inl a \<Rightarrow> Inl a | Inr s' \<Rightarrow> process_ranges e halt ranges ri sn (i + 1) s') = x"
    for x :: "(abort \<times> state) + state"
    using assms by (cases x) (simp_all add: process_ranges_done)
  then show ?thesis
    using assms by (subst process_ranges.simps) (simp add: case_prod_beta Let_def)
qed

lemma process_ranges_rj_0:
  "process_ranges e halt rj_ranges 0 sn 0 s =
     (case process_batches e halt ''RJ'' sn 499999 s of
        Inl a \<Rightarrow> Inl a
      | Inr s' \<Rightarrow> process_batches e halt ''RJ'' 1000000 1369999 s')"
proof -
  have n: "process_ranges e halt rj_ranges 0 sn (0 + 1) s' =
      process_batches e halt ''RJ'' 1000000 1369999 s'" for s'
    by (subst process_ranges_last) (simp_all add: rj_ranges_def)
  have l: "\<not> length rj_ranges \<le> 0" "rj_ranges ! 0 = (0, 499999)"
    by (simp_all add: rj_ranges_def)
  show ?thesis
    by (subst process_ranges.simps)
      (simp only: l if_False Let_def prod.case if_True n simp_thms cong: sum.case_cong)
qed

lemma process_ranges_rj_1:
  "process_ranges e halt rj_ranges 1 sn 1 s = process_batches e halt ''RJ'' sn 1369999 s"
  by (subst process_ranges_last) (simp_all add: rj_ranges_def)

lemma process_vj_raises: "process_vj e halt start_in_vj start_number s = Inl (Raised TypeError, s)"
  by (simp add: process_vj_def vj_range_def)

lemma startup_fields [simp]:
  "visited (startup disk) = []" "temp_file (startup disk) = temp_file disk"
  by (simp_all add: startup_def)

lemma strip_the_id:
  assumes "0 \<le> n" "n \<le> 9999999"
  shows "strip (the_id n ''RJ'') = the_id n ''RJ''"
proof -
  let ?d = "format_0d (if n < 1000000 then 6 else 8) n"
  have g: "the_id n ''RJ'' = ''RJ'' @ ?d" using assms by (intro the_id_padded(2)) simp_all
  have d: "?d \<noteq> []" "\<forall>c\<in>set ?d. is_digit c" using format_0d_digits [OF assms(1)] by blast+
  then have "is_digit (last ?d)" by simp
  then have "\<not> is_space (last (''RJ'' @ ?d))" using d(1) by (simp add: is_digit_not_space)
  moreover have "\<not> is_space (hd (''RJ'' @ ?d))" by (simp add: is_space_def)
  ultimately show ?thesis unfolding g by (intro strip_id) simp_all
qed

lemma start_info_None: "start_info None = Inr (0, 0, False)"
  by (simp add: start_info_def truthy_def)

lemma start_info_rj:
  assumes "0 \<le> c \<and> c \<le> 499999 \<or> 1000000 \<le> c \<and> c \<le> 1369999"
  shows "start_info (Some (the_id c ''RJ'')) = Inr (c, if c \<le> 499999 then 0 else 1, False)"
proof -
  have c: "0 \<le> c" "c \<le> 9999999" using assms by auto
  have g: "the_id c ''RJ'' = ''RJ'' @ format_0d (if c < 1000000 then 6 else 8) c"
    using c by (intro the_id_padded(2)) simp_all
  then have "the_id c ''RJ'' \<noteq> []" by simp
  moreover have "extract_number_and_type (the_id c ''RJ'') = Inr (c, ''RJ'')"
    unfolding g using c by (intro extract_padded) simp_all
  ultimately show ?thesis using assms by (auto simp: start_info_def truthy_def)
qed

lemma main_fresh:
  assumes "temp_file disk = None"
  shows "main e halt disk =
     (case process_ranges e halt rj_ranges 0 0 0 (startup disk) of
        Inl a \<Rightarrow> Inl a
      | Inr s' \<Rightarrow> Inl (Raised TypeError, s'))"
  by (simp add: main_def load_progress_def assms start_info_None process_vj_raises
      cong: sum.case_cong)

lemma main_resume:
  assumes "temp_file disk = Some (the_id c ''RJ'')"
    and "0 \<le> c \<and> c \<le> 499999 \<or> 1000000 \<le> c \<and> c \<le> 1369999"
  shows "main e halt disk =
     (case process_ranges e halt rj_ranges (if c \<le> 499999 then 0 else 1) c
             (if c \<le> 499999 then 0 else 1) (startup disk) of
        Inl a \<Rightarrow> Inl a
      | Inr s' \<Rightarrow> Inl (Raised TypeError, s'))"
proof -
  have "strip (the_id c ''RJ'') = the_id c ''RJ''"
    using assms(2) by (intro strip_the_id) auto
  then have "load_progress disk = Some (the_id c ''RJ'')"
    by (simp add: load_progress_def assms(1))
  then show ?thesis
    by (simp add: main_def start_info_rj [OF assms(2)] process_vj_raises cong: sum.case_cong)
qed


subsection \<open>Whole runs\<close>

text \<open>The declared ranges are long: their lists of numbers are not to be written out.\<close>

declare upto_rec_numeral [simp del]

lemma cursor_after_Some:
  assumes "a \<le> 10 * (k div 10)"
  shows "cursor_after ct a k t = Some (the_id (10 * (k div 10)) ct)"
  using assms by (simp add: cursor_after_def)

lemma ranges_run_0:
  assumes "images_resolve e" "0 \<le> sn" "sn \<le> 500000"
  shows "\<exists>s'. process_ranges e None rj_ranges 0 sn 0 s = Inr s' \<and>
           visited s' = visited s @ map (\<lambda>n. the_id n ''RJ'') (rj_numbers_from sn)"
proof -
  obtain s1 where s1: "process_batches e None ''RJ'' sn 499999 s = Inr s1"
    "visited s1 = visited s @ map (\<lambda>n. the_id n ''RJ'') [sn..499999]"
    using process_batches_run [OF assms(1), of "''RJ''" 499999 sn None s] assms(2) by auto
  obtain s2 where s2: "process_batches e None ''RJ'' 1000000 1369999 s1 = Inr s2"
    "visited s2 = visited s1 @ map (\<lambda>n. the_id n ''RJ'') [1000000..1369999]"
    using process_batches_run [OF assms(1), of "''RJ''" 1369999 1000000 None s1] by auto
  have "max sn 1000000 = 1000000" using assms(3) by simp
  then have "rj_numbers_from sn = [sn..499999] @ [1000000..1369999]"
    by (simp add: rj_numbers_from_def)
  with s1 s2 show ?thesis unfolding process_ranges_rj_0 by simp
qed

lemma ranges_run_1:
  assumes "images_resolve e" "1000000 \<le> sn"
  shows "\<exists>s'. process_ranges e None rj_ranges 1 sn 1 s = Inr s' \<and>
           visited s' = visited s @ map (\<lambda>n. the_id n ''RJ'') (rj_numbers_from sn)"
proof -
  obtain s1 where s1: "process_batches e None ''RJ'' sn 1369999 s = Inr s1"
    "visited s1 = visited s @ map (\<lambda>n. the_id n ''RJ'') [sn..1369999]"
    using process_batches_run [OF assms(1), of "''RJ''" 1369999 sn None s] assms(2) by auto
  have "max sn 1000000 = sn" "[sn..499999] = []" using assms(2) by simp_all
  then have "rj_numbers_from sn = [sn..1369999]" by (simp add: rj_numbers_from_def)
  with s1 show ?thesis unfolding process_ranges_rj_1 by simp
qed

lemma ranges_halted:
  assumes "images_resolve e" "0 \<le> k \<and> k \<le> 499999 \<or> 1000000 \<le> k \<and> k \<le> 1369999"
  shows "\<exists>s'. process_ranges e (Some (the_id k ''RJ'')) rj_ranges 0 0 0 s = Inl (Terminated, s') \<and>
           visited s' = visited s @ map (\<lambda>n. the_id n ''RJ'') (rj_numbers_upto k) \<and>
           temp_file s' = Some (the_id (10 * (k div 10)) ''RJ'')"
proof (cases "k \<le> 499999")
  case True
  with assms(2) have k: "0 \<le> k" by auto
  obtain s' where s': "process_batches e (Some (the_id k ''RJ'')) ''RJ'' 0 499999 s = Inl (Terminated, s')"
    "visited s' = visited s @ map (\<lambda>n. the_id n ''RJ'') [0..k]"
    "temp_file s' = cursor_after ''RJ'' 0 k (temp_file s)"
    using process_batches_halted [OF assms(1), of "''RJ''" 499999 k _ 0 s] True k by auto
  have "0 \<le> 10 * (k div 10)" using k by simp
  then have "temp_file s' = Some (the_id (10 * (k div 10)) ''RJ'')"
    unfolding s'(3) by (rule cursor_after_Some)
  moreover have "min k 499999 = k" "[1000000..k] = []" using True by simp_all
  then have "rj_numbers_upto k = [0..k]" by (simp add: rj_numbers_upto_def)
  ultimately show ?thesis using s'(1,2) unfolding process_ranges_rj_0 by simp
next
  case False
  with assms(2) have k: "1000000 \<le> k" "k \<le> 1369999" by auto
  have "\<forall>n. 0 \<le> n \<and> n \<le> 499999 \<longrightarrow> Some (the_id k ''RJ'') \<noteq> Some (the_id n ''RJ'')"
  proof (intro allI impI)
    fix n :: int assume n: "0 \<le> n \<and> n \<le> 499999"
    then have "k \<noteq> n" using k by simp
    then have "the_id k ''RJ'' \<noteq> the_id n ''RJ''"
      using the_id_inj [of "''RJ''" k n] n k by auto
    then show "Some (the_id k ''RJ'') \<noteq> Some (the_id n ''RJ'')" by simp
  qed
  then obtain s1 where s1: "process_batches e (Some (the_id k ''RJ'')) ''RJ'' 0 499999 s = Inr s1"
    "visited s1 = visited s @ map (\<lambda>n. the_id n ''RJ'') [0..499999]"
    using process_batches_run [OF assms(1), of "''RJ''" 499999 0 "Some (the_id k ''RJ'')" s] by auto
  obtain s' where s': "process_batches e (Some (the_id k ''RJ'')) ''RJ'' 1000000 1369999 s1 = Inl (Terminated, s')"
    "visited s' = visited s1 @ map (\<lambda>n. the_id n ''RJ'') [1000000..k]"
    "temp_file s' = cursor_after ''RJ'' 1000000 k (temp_file s1)"
    using process_batches_halted [OF assms(1), of "''RJ''" 1369999 k _ 1000000 s1] k by auto
  have "100000 \<le> k div 10" using k(1) by simp
  then have "1000000 \<le> 10 * (k div 10)" by simp
  then have "temp_file s' = Some (the_id (10 * (k div 10)) ''RJ'')"
    unfolding s'(3) by (rule cursor_after_Some)
  moreover have "min k 499999 = 499999" using False by simp
  then have "rj_numbers_upto k = [0..499999] @ [1000000..k]" by (simp add: rj_numbers_upto_def)
  ultimately show ?thesis using s1 s'(1,2) unfolding process_ranges_rj_0 by simp
qed

lemma main_single_pass:
  assumes "images_resolve e" "temp_file disk = None"
  shows "\<exists>s. main e None disk = Inl (Raised TypeError, s) \<and>
           visited s = map (\<lambda>n. the_id n ''RJ'') (rj_numbers_from 0)"
proof -
  obtain s where "process_ranges e None rj_ranges 0 0 0 (startup disk) = Inr s"
    "visited s = visited (startup disk) @ map (\<lambda>n. the_id n ''RJ'') (rj_numbers_from 0)"
    using ranges_run_0 [OF assms(1), of 0 "startup disk"] by auto
  then show ?thesis by (simp add: main_fresh [OF assms(2)])
qed

lemma main_first_phase:
  assumes "images_resolve e" "temp_file disk = None"
    and "0 \<le> k \<and> k \<le> 499999 \<or> 1000000 \<le> k \<and> k \<le> 1369999"
  shows "\<exists>s. main e (Some (the_id k ''RJ'')) disk = Inl (Terminated, s) \<and>
           visited s = map (\<lambda>n. the_id n ''RJ'') (rj_numbers_upto k) \<and>
           temp_file s = Some (the_id (10 * (k div 10)) ''RJ'')"
proof -
  obtain s where "process_ranges e (Some (the_id k ''RJ'')) rj_ranges 0 0 0 (startup disk) =
      Inl (Terminated, s)"
    "visited s = visited (startup disk) @ map (\<lambda>n. the_id n ''RJ'') (rj_numbers_upto k)"
    "temp_file s = Some (the_id (10 * (k div 10)) ''RJ'')"
    using ranges_halted [OF assms(1,3), of "startup disk"] by auto
  then show ?thesis by (simp add: main_fresh [OF assms(2)])
qed

lemma main_second_phase:
  assumes "images_resolve e" "temp_file disk = Some (the_id c ''RJ'')"
    and "0 \<le> c \<and> c \<le> 499999 \<or> 1000000 \<le> c \<and> c \<le> 1369999"
  shows "\<exists>s. main e None disk = Inl (Raised TypeError, s) \<and>
           visited s = map (\<lambda>n. the_id n ''RJ'') (rj_numbers_from c)"
proof (cases "c \<le> 499999")
  case True
  with assms(3) have c: "0 \<le> c" "c \<le> 500000" by auto
  obtain s where "process_ranges e None rj_ranges 0 c 0 (startup disk) = Inr s"
    "visited s = visited (startup disk) @ map (\<lambda>n. the_id n ''RJ'') (rj_numbers_from c)"
    using ranges_run_0 [OF assms(1) c, of "startup disk"] by auto
  with True show ?thesis unfolding main_resume [OF assms(2,3)] by simp
next
  case False
  with assms(3) have c: "1000000 \<le> c" by auto
  obtain s where "process_ranges e None rj_ranges 1 c 1 (startup disk) = Inr s"
    "visited s = visited (startup disk) @ map (\<lambda>n. the_id n ''RJ'') (rj_numbers_from c)"
    using ranges_run_1 [OF assms(1) c, of "startup disk"] by auto
  with False show ?thesis unfolding main_resume [OF assms(2,3)] by simp
qed


subsection \<open>The order of the visits, and resuming\<close>

lemma rj_numbers_split:
  assumes "0 \<le> k \<and> k \<le> 499999 \<or> 1000000 \<le> k \<and> k \<le> 1369999"
  shows "rj_numbers_from 0 = rj_numbers_upto k @ rj_numbers_from (k + 1)"
proof (cases "k \<le> 499999")
  case True
  with assms have k: "0 \<le> k" by auto
  have "[0..499999] = [0..k] @ [k + 1..499999]" using k True by (rule upto_split2)
  moreover have "min k 499999 = k" "[1000000..k] = []" "max (k + 1) 1000000 = 1000000"
    "max 0 1000000 = (1000000::int)"
    using True by simp_all
  ultimately show ?thesis by (simp add: rj_numbers_from_def rj_numbers_upto_def)
next
  case False
  with assms have k: "1000000 \<le> k" "k \<le> 1369999" by auto
  have "[1000000..1369999] = [1000000..k] @ [k + 1..1369999]" using k by (rule upto_split2)
  moreover have "min k 499999 = 499999" "[k + 1..499999] = []" "max (k + 1) 1000000 = k + 1"
    "max 0 1000000 = (1000000::int)"
    using k by simp_all
  ultimately show ?thesis by (simp add: rj_numbers_from_def rj_numbers_upto_def)
qed

lemma cursor_in_range:
  fixes k :: int
  assumes "0 \<le> k \<and> k \<le> 499999 \<or> 1000000 \<le> k \<and> k \<le> 1369999"
  shows "10 * (k div 10) \<le> k"
    and "0 \<le> 10 * (k div 10) \<and> 10 * (k div 10) \<le> 499999 \<or>
         1000000 \<le> 10 * (k div 10) \<and> 10 * (k div 10) \<le> 1369999"
    and "k \<le> 499999 \<Longrightarrow> 0 \<le> 10 * (k div 10)"
    and "1000000 \<le> k \<Longrightarrow> 1000000 \<le> 10 * (k div 10)"
proof -
  show le: "10 * (k div 10) \<le> k" by simp
  show 3: "0 \<le> 10 * (k div 10)" if "k \<le> 499999"
    using assms that by simp
  show 4: "1000000 \<le> 10 * (k div 10)" if "1000000 \<le> k"
  proof -
    from that have "100000 \<le> k div 10" by simp
    then show ?thesis by simp
  qed
  show "0 \<le> 10 * (k div 10) \<and> 10 * (k div 10) \<le> 499999 \<or>
         1000000 \<le> 10 * (k div 10) \<and> 10 * (k div 10) \<le> 1369999"
    using assms le 3 4 by linarith
qed

lemma rj_numbers_from_cursor:
  assumes "0 \<le> k \<and> k \<le> 499999 \<or> 1000000 \<le> k \<and> k \<le> 1369999"
  shows "rj_numbers_from (10 * (k div 10)) = [10 * (k div 10)..k] @ rj_numbers_from (k + 1)"
proof (cases "k \<le> 499999")
  case True
  let ?c = "10 * (k div 10)"
  note c = cursor_in_range(1) [OF assms]
  have "[?c..499999] = [?c..k] @ [k + 1..499999]" using c True by (rule upto_split2)
  moreover have "max ?c 1000000 = 1000000" "max (k + 1) 1000000 = 1000000"
    using c True by simp_all
  ultimately show ?thesis by (simp add: rj_numbers_from_def)
next
  case False
  let ?c = "10 * (k div 10)"
  from False assms have k: "1000000 \<le> k" "k \<le> 1369999" by auto
  note c = cursor_in_range(1) [OF assms] cursor_in_range(4) [OF assms k(1)]
  have "[?c..1369999] = [?c..k] @ [k + 1..1369999]" using c(1) k(2) by (rule upto_split2)
  moreover have "max ?c 1000000 = ?c" "max (k + 1) 1000000 = k + 1"
    "[?c..499999] = []" "[k + 1..499999] = []"
    using c k by simp_all
  ultimately show ?thesis by (simp add: rj_numbers_from_def)
qed

lemma cursor_span_visited:
  fixes k :: int
  assumes "0 \<le> k \<and> k \<le> 499999 \<or> 1000000 \<le> k \<and> k \<le> 1369999"
  shows "set [10 * (k div 10)..k] \<subseteq> set (rj_numbers_upto k)"
proof (cases "k \<le> 499999")
  case True
  with cursor_in_range(3) [OF assms] show ?thesis
    by (auto simp: rj_numbers_upto_def)
next
  case False
  with assms have "1000000 \<le> k" by auto
  with cursor_in_range(4) [OF assms] show ?thesis
    by (auto simp: rj_numbers_upto_def)
qed

lemma distinct_rj_visits: "distinct (map (\<lambda>n. the_id n ''RJ'') (rj_numbers_from 0))"
proof -
  have "distinct (rj_numbers_from 0)" by (auto simp: rj_numbers_from_def)
  moreover have "inj_on (\<lambda>n. the_id n ''RJ'') (set (rj_numbers_from 0))"
  proof (rule inj_onI)
    fix n k :: int
    assume "n \<in> set (rj_numbers_from 0)" "k \<in> set (rj_numbers_from 0)"
      and eq: "the_id n ''RJ'' = the_id k ''RJ''"
    then have "0 \<le> n" "n \<le> 9999999" "0 \<le> k" "k \<le> 9999999"
      by (auto simp: rj_numbers_from_def)
    then show "n = k" using eq by (intro the_id_inj [of "''RJ''" n k]) simp_all
  qed
  ultimately show ?thesis by (simp add: distinct_map)
qed

lemma reached_Inl [simp]: "reached (Inl (a, s)) = s"
  by (simp add: reached_def)

lemma single_pass_rj:
  assumes "images_resolve e" "temp_file disk = None"
  shows "single_pass_visits e disk = map (\<lambda>n. the_id n ''RJ'') (rj_numbers_from 0)"
  using main_single_pass [OF assms] by (auto simp: single_pass_visits_def)

lemma two_phase_rj:
  assumes "images_resolve e" "temp_file disk = None"
    and "0 \<le> k \<and> k \<le> 499999 \<or> 1000000 \<le> k \<and> k \<le> 1369999"
  shows "two_phase_visits e (the_id k ''RJ'') disk =
           map (\<lambda>n. the_id n ''RJ'') (rj_numbers_upto k) @
           map (\<lambda>n. the_id n ''RJ'') (rj_numbers_from (10 * (k div 10)))"
proof -
  obtain s1 where s1: "main e (Some (the_id k ''RJ'')) disk = Inl (Terminated, s1)"
    "visited s1 = map (\<lambda>n. the_id n ''RJ'') (rj_numbers_upto k)"
    "temp_file s1 = Some (the_id (10 * (k div 10)) ''RJ'')"
    using main_first_phase [OF assms] by blast
  obtain s2 where s2: "main e None s1 = Inl (Raised TypeError, s2)"
    "visited s2 = map (\<lambda>n. the_id n ''RJ'') (rj_numbers_from (10 * (k div 10)))"
    using main_second_phase [OF assms(1) s1(3) cursor_in_range(2) [OF assms(3)]] by blast
  show ?thesis by (simp add: two_phase_visits_def s1 s2)
qed

text \<open>
  Claim C1 at a run without a saved cursor, on a catalog file of well-formed entries and
  for a provider whose accepted works have usable identifiers. The run visits the two RJ
  ranges in order, each number once, and then ends with a TypeError: \<open>vj_range[1]\<close> is a
  tuple, and \<open>vj_end + 1\<close> cannot be computed. No VJ identifier is ever visited.
\<close>

theorem main_stops_before_vj:
  assumes "images_resolve e" and "temp_file disk = None"
  shows "\<exists>s. main e None disk = Inl (Raised TypeError, s) \<and>
           visited s = map (\<lambda>n. the_id n ''RJ'') ([0..499999] @ [1000000..1369999]) \<and>
           distinct (visited s) \<and>
           (\<forall>pid\<in>set (visited s). take 2 pid = ''RJ'')"
proof -
  obtain s where s: "main e None disk = Inl (Raised TypeError, s)"
    "visited s = map (\<lambda>n. the_id n ''RJ'') (rj_numbers_from 0)"
    using main_single_pass [OF assms] by blast
  have r: "rj_numbers_from 0 = [0..499999] @ [1000000..1369999]"
    by (simp add: rj_numbers_from_def)
  have "take 2 (the_id n ''RJ'') = ''RJ''" if "n \<in> set (rj_numbers_from 0)" for n
  proof -
    from that have "0 \<le> n" "n \<le> 9999999" by (auto simp: rj_numbers_from_def)
    then have "the_id n ''RJ'' = ''RJ'' @ format_0d (if n < 1000000 then 6 else 8) n"
      by (intro the_id_padded(2)) simp_all
    then show ?thesis by simp
  qed
  then have "\<forall>pid\<in>set (visited s). take 2 pid = ''RJ''" unfolding s(2) by auto
  moreover have "distinct (visited s)" unfolding s(2) by (rule distinct_rj_visits)
  ultimately show ?thesis using s unfolding r by blast
qed

lemma images_resolve_silent: "images_resolve silent_env"
  by (simp add: images_resolve_def silent_env_def)

theorem main_stops_before_vj_witness:
  "\<exists>s. main silent_env None empty_disk = Inl (Raised TypeError, s) \<and>
       visited s = map (\<lambda>n. the_id n ''RJ'') ([0..499999] @ [1000000..1369999]) \<and>
       distinct (visited s) \<and>
       (\<forall>pid\<in>set (visited s). take 2 pid = ''RJ'')"
proof -
  have "temp_file empty_disk = None" by (simp add: empty_disk_def)
  with images_resolve_silent show ?thesis by (rule main_stops_before_vj)
qed

text \<open>
  Claim C3, as stated, fails. The cursor is written before an identifier is processed, and
  a restart begins at the cursor: when the run is stopped after \<open>RJ000000\<close> and started
  again, \<open>RJ000000\<close> is visited a second time.
\<close>

theorem resume_visits_twice:
  "\<not> distinct (two_phase_visits silent_env ''RJ000000'' empty_disk)"
proof -
  have k: "(0::int) \<le> 0 \<and> (0::int) \<le> 499999 \<or> 1000000 \<le> (0::int) \<and> (0::int) \<le> 1369999"
    by simp
  have t: "temp_file empty_disk = None" by (simp add: empty_disk_def)
  have g: "the_id 0 ''RJ'' = ''RJ000000''" by (simp add: the_id_def codec_eval)
  have u: "rj_numbers_upto 0 = [0]" by (simp add: rj_numbers_upto_def upto.simps)
  have f: "rj_numbers_from 0 = 0 # ([1..499999] @ [1000000..1369999])"
    by (simp add: rj_numbers_from_def upto_rec1 [of 0 499999])
  have "two_phase_visits silent_env (the_id 0 ''RJ'') empty_disk =
      map (\<lambda>n. the_id n ''RJ'') (rj_numbers_upto 0) @
      map (\<lambda>n. the_id n ''RJ'') (rj_numbers_from (10 * (0 div 10)))"
    using images_resolve_silent t k by (rule two_phase_rj)
  then have "two_phase_visits silent_env ''RJ000000'' empty_disk =
      ''RJ000000'' # ''RJ000000'' # map (\<lambda>n. the_id n ''RJ'') ([1..499999] @ [1000000..1369999])"
    unfolding g by (simp add: u f g)
  then show ?thesis by simp
qed

text \<open>
  Claim C3, amended, for the RJ family, a catalog file of well-formed entries and a
  provider whose accepted works have usable identifiers. Let \<open>K\<close> be the identifier of a
  number \<open>k\<close> of the declared RJ ranges. The single pass visits every RJ identifier of the
  universe once. The run stopped after \<open>K\<close> and started again from the cursor visits the
  same set of identifiers: the second phase begins at the last multiple of ten up to \<open>k\<close>,
  so the identifiers from there to \<open>K\<close> are visited in both phases and all the others
  once.
\<close>

theorem resume_revisits_from_cursor:
  assumes "images_resolve e" and "temp_file disk = None"
    and "0 \<le> k \<and> k \<le> 499999 \<or> 1000000 \<le> k \<and> k \<le> 1369999"
  shows "single_pass_visits e disk =
           map (\<lambda>n. the_id n ''RJ'') (rj_numbers_upto k @ rj_numbers_from (k + 1)) \<and>
         two_phase_visits e (the_id k ''RJ'') disk =
           map (\<lambda>n. the_id n ''RJ'')
             (rj_numbers_upto k @ [10 * (k div 10)..k] @ rj_numbers_from (k + 1)) \<and>
         set (two_phase_visits e (the_id k ''RJ'') disk) = set (single_pass_visits e disk) \<and>
         distinct (single_pass_visits e disk)"
proof -
  let ?f = "\<lambda>n. the_id n ''RJ''"
  have 1: "single_pass_visits e disk = map ?f (rj_numbers_upto k @ rj_numbers_from (k + 1))"
    unfolding single_pass_rj [OF assms(1,2)] rj_numbers_split [OF assms(3)] ..
  have 2: "two_phase_visits e (the_id k ''RJ'') disk =
      map ?f (rj_numbers_upto k @ [10 * (k div 10)..k] @ rj_numbers_from (k + 1))"
    unfolding two_phase_rj [OF assms] rj_numbers_from_cursor [OF assms(3)] by simp
  have 3: "set (two_phase_visits e (the_id k ''RJ'') disk) = set (single_pass_visits e disk)"
    unfolding 1 2 using cursor_span_visited [OF assms(3)] by auto
  have 4: "distinct (single_pass_visits e disk)"
    unfolding single_pass_rj [OF assms(1,2)] by (rule distinct_rj_visits)
  from 1 2 3 4 show ?thesis by blast
qed

theorem resume_revisits_from_cursor_witness:
  "single_pass_visits silent_env empty_disk =
     map (\<lambda>n. the_id n ''RJ'') (rj_numbers_upto 1000025 @ rj_numbers_from 1000026) \<and>
   two_phase_visits silent_env (the_id 1000025 ''RJ'') empty_disk =
     map (\<lambda>n. the_id n ''RJ'')
       (rj_numbers_upto 1000025 @ [1000020..1000025] @ rj_numbers_from 1000026) \<and>
   set (two_phase_visits silent_env (the_id 1000025 ''RJ'') empty_disk) =
     set (single_pass_visits silent_env empty_disk)"
proof -
  have k: "(0::int) \<le> 1000025 \<and> (1000025::int) \<le> 499999 \<or>
      1000000 \<le> (1000025::int) \<and> (1000025::int) \<le> 1369999"
    by simp
  have t: "temp_file empty_disk = None" by (simp add: empty_disk_def)
  have c: "10 * ((1000025::int) div 10) = 1000020" "(1000025::int) + 1 = 1000026" by simp_all
  note r = resume_revisits_from_cursor [OF images_resolve_silent t k, unfolded c]
  from r show ?thesis by blast
qed


end
